theory Spec2Isabelle
  imports Complex_Main
begin

section \<open>Data model of \<^verbatim>\<open>src/app.py\<close>\<close>

text \<open>
  Python floats are modelled as \<^typ>\<open>real\<close> (rounding is not modelled) and Python's
  unbounded integers as \<^typ>\<open>int\<close>.  Every value the program obtains from outside
  (\<^verbatim>\<open>random.uniform\<close>, \<^verbatim>\<open>random.random\<close>, \<^verbatim>\<open>time.time\<close>, \<^verbatim>\<open>uuid.uuid4\<close>) is an
  explicit argument of the function that draws it.

  \<^verbatim>\<open>socketio.sleep\<close> suspends the caller, and handlers of other socket events run
  meanwhile.  \<^verbatim>\<open>initiate_checkpoint\<close> is modelled with its six kinds of suspension
  points, at each of which a schedule says which \<^verbatim>\<open>trigger_failure\<close> events arrive (the
  interference to which section 4.2 of the specification attributes an abort); the
  other handlers are not scheduled there.  The suspension points of
  \<^verbatim>\<open>initiate_recovery\<close> and \<^verbatim>\<open>step_computation\<close> are modelled with no event arriving.
\<close>

text \<open>The dictionary \<^verbatim>\<open>Process.state\<close>: five fixed keys.\<close>

record pstate =
  temperature :: real
  pressure :: real
  wind_speed :: real
  humidity :: real
  computation_step :: int

text \<open>The dictionary built by \<^verbatim>\<open>take_tentative_checkpoint\<close>.\<close>

record checkpoint =
  ck_pid :: int
  ck_timestamp :: real
  ck_state :: pstate
  ck_sent_counter :: "(int \<times> int) list"
  ck_rcvd_counter :: "(int \<times> int) list"
  ck_type :: string
  checkpoint_id :: string

text \<open>
  Class \<^verbatim>\<open>Process\<close>.  The two \<^verbatim>\<open>defaultdict(int)\<close> counters are association lists;
  the program only creates and copies them.
\<close>

record process =
  pid :: int
  custom_name :: string
  num_processes :: int
  state :: pstate
  checkpoints :: "checkpoint list"
  sent_counter :: "(int \<times> int) list"
  rcvd_counter :: "(int \<times> int) list"
  is_failed :: bool
  status :: string
  checkpoint_type :: "string option"
  messages_sent :: int
  messages_received :: int

text \<open>The four \<^verbatim>\<open>random.uniform\<close> draws of \<^verbatim>\<open>Process.__init__\<close>, in source order.\<close>

record init_draws =
  i_temperature :: real
  i_pressure :: real
  i_wind_speed :: real
  i_humidity :: real

text \<open>
  The draws of one \<^verbatim>\<open>simulate_computation\<close> call, in source order: four
  \<^verbatim>\<open>random.uniform\<close> results and two \<^verbatim>\<open>random.random\<close> results.
\<close>

record step_draws =
  u_temperature :: real
  u_pressure :: real
  u_wind_speed :: real
  u_humidity :: real
  r_sent :: real
  r_received :: real

subsection \<open>Decimal rendering of \<^verbatim>\<open>f"Node-{pid}"\<close>\<close>

definition digit_char :: "nat \<Rightarrow> char" where
  "digit_char d = char_of (48 + d)"

function str_nat :: "nat \<Rightarrow> string" where
  "str_nat n = (if n < 10 then [digit_char n] else str_nat (n div 10) @ [digit_char (n mod 10)])"
  by pat_completeness auto
termination
  by (relation "measure (\<lambda>n. n)") auto

definition str_int :: "int \<Rightarrow> string" where
  "str_int i = (if i < 0 then CHR ''-'' # str_nat (nat (- i)) else str_nat (nat i))"

section \<open>Class \<^verbatim>\<open>Process\<close>\<close>

text \<open>\<^verbatim>\<open>custom_name or f"Node-{pid}"\<close>: \<^verbatim>\<open>None\<close> and the empty string are both falsy.\<close>

definition Process :: "int \<Rightarrow> int \<Rightarrow> string option \<Rightarrow> init_draws \<Rightarrow> process" where
  "Process p n cname d =
     \<lparr> pid = p,
       custom_name = (case cname of
                        None \<Rightarrow> ''Node-'' @ str_int p
                      | Some s \<Rightarrow> if s = [] then ''Node-'' @ str_int p else s),
       num_processes = n,
       state = \<lparr> temperature = 20 + i_temperature d,
                 pressure = 1013 + i_pressure d,
                 wind_speed = 10 + i_wind_speed d,
                 humidity = 60 + i_humidity d,
                 computation_step = 0 \<rparr>,
       checkpoints = [],
       sent_counter = [],
       rcvd_counter = [],
       is_failed = False,
       status = ''running'',
       checkpoint_type = None,
       messages_sent = 0,
       messages_received = 0 \<rparr>"

text \<open>
  \<^verbatim>\<open>take_tentative_checkpoint\<close>: the argument pair is the result of \<^verbatim>\<open>time.time()\<close> and
  the text of \<^verbatim>\<open>str(uuid.uuid4())\<close>.  Returns the updated process and the new dictionary.
\<close>

definition take_tentative_checkpoint :: "real \<times> string \<Rightarrow> process \<Rightarrow> process \<times> checkpoint" where
  "take_tentative_checkpoint tu p =
     (let p1 = p\<lparr>status := ''checkpointing''\<rparr>;
          p2 = p1\<lparr>checkpoint_type := Some ''tentative''\<rparr>;
          ckpt = \<lparr> ck_pid = pid p2,
                   ck_timestamp = fst tu,
                   ck_state = state p2,
                   ck_sent_counter = sent_counter p2,
                   ck_rcvd_counter = rcvd_counter p2,
                   ck_type = ''tentative'',
                   checkpoint_id = take 8 (snd tu) \<rparr>
      in (p2, ckpt))"

definition commit_checkpoint :: "checkpoint \<Rightarrow> process \<Rightarrow> process" where
  "commit_checkpoint ckpt p =
     (let ckpt' = ckpt\<lparr>ck_type := ''permanent''\<rparr>;
          p1 = p\<lparr>checkpoints := checkpoints p @ [ckpt']\<rparr>
      in p1\<lparr>checkpoint_type := Some ''permanent''\<rparr>)"

definition abort_checkpoint :: "process \<Rightarrow> process" where
  "abort_checkpoint p = (p\<lparr>status := ''running''\<rparr>)\<lparr>checkpoint_type := None\<rparr>"

text \<open>\<^verbatim>\<open>simulate_computation(intensity)\<close> with its six draws.\<close>

definition simulate_computation :: "real \<Rightarrow> step_draws \<Rightarrow> process \<Rightarrow> process" where
  "simulate_computation intensity d p =
     (if \<not> is_failed p then
        (let s = state p;
             s1 = s\<lparr>temperature := temperature s + u_temperature d * intensity\<rparr>;
             s2 = s1\<lparr>pressure := pressure s1 + u_pressure d * intensity\<rparr>;
             s3 = s2\<lparr>wind_speed := wind_speed s2 + u_wind_speed d * intensity\<rparr>;
             s4 = s3\<lparr>humidity := humidity s3 + u_humidity d * intensity\<rparr>;
             s5 = s4\<lparr>computation_step := computation_step s4 + 1\<rparr>;
             p1 = p\<lparr>state := s5\<rparr>;
             p2 = (if r_sent d > 7 / 10 then p1\<lparr>messages_sent := messages_sent p1 + 1\<rparr> else p1);
             p3 = (if r_received d > 7 / 10
                   then p2\<lparr>messages_received := messages_received p2 + 1\<rparr> else p2)
         in p3)
      else p)"

text \<open>
  \<^verbatim>\<open>restore_from_checkpoint\<close>: the result is the updated process and the returned value
  (\<^verbatim>\<open>None\<close> when the history is empty).
\<close>

definition restore_from_checkpoint :: "process \<Rightarrow> process \<times> string option" where
  "restore_from_checkpoint p =
     (if checkpoints p \<noteq> [] then
        (let last_checkpoint = last (checkpoints p);
             p1 = p\<lparr>state := ck_state last_checkpoint\<rparr>;
             p2 = p1\<lparr>sent_counter := ck_sent_counter last_checkpoint\<rparr>;
             p3 = p2\<lparr>rcvd_counter := ck_rcvd_counter last_checkpoint\<rparr>;
             p4 = p3\<lparr>is_failed := False\<rparr>;
             p5 = p4\<lparr>status := ''recovering''\<rparr>
         in (p5, Some (checkpoint_id last_checkpoint)))
      else (p, None))"

definition simulate_failure :: "process \<Rightarrow> process" where
  "simulate_failure p = (p\<lparr>is_failed := True\<rparr>)\<lparr>status := ''failed''\<rparr>"

section \<open>Class \<^verbatim>\<open>SimulationController\<close>\<close>

text \<open>
  The messages sent on the \<^verbatim>\<open>'log'\<close> channel, one constructor per message text of
  the source, carrying the interpolated values; a log entry pairs it with its
  \<^verbatim>\<open>'type'\<close>.  The \<^verbatim>\<open>'update'\<close> broadcasts only read the controller and are left out.
\<close>

datatype log_message =
    Checkpoint_phase1
  | Tentative_checkpoint string string int
  | Checkpoint_phase2_committing
  | Checkpoint_committed string string
  | Checkpoint_aborted
  | Recovery_initiated string
  | Restored_to_checkpoint string string int
  | Recovery_complete
  | Computation_step int

text \<open>
  The fields of \<^verbatim>\<open>SimulationController\<close>, and the log entries emitted so far
  (\<open>emitted\<close>, oldest first).  A reference to a \<^verbatim>\<open>Process\<close> object is its position in
  \<open>processes\<close>: every object is created by \<^verbatim>\<open>add_process\<close> and appended once.
\<close>

record controller =
  processes :: "process list"
  next_pid :: int
  is_running :: bool
  is_paused :: bool
  auto_mode :: bool
  computation_speed :: real
  checkpoint_frequency :: int
  step_count :: int
  emitted :: "(log_message \<times> string) list"

definition SimulationController :: controller where
  "SimulationController =
     \<lparr> processes = [], next_pid = 0, is_running = False, is_paused = False,
       auto_mode = False, computation_speed = 1, checkpoint_frequency = 5,
       step_count = 0, emitted = [] \<rparr>"

definition emit_log :: "log_message \<Rightarrow> string \<Rightarrow> controller \<Rightarrow> controller" where
  "emit_log m ty c = c\<lparr>emitted := emitted c @ [(m, ty)]\<rparr>"

definition add_process :: "string option \<Rightarrow> init_draws \<Rightarrow> controller \<Rightarrow> controller \<times> int" where
  "add_process cname d c =
     (let process = Process (next_pid c) (int (length (processes c)) + 1) cname d;
          c1 = c\<lparr>processes := processes c @ [process]\<rparr>;
          c2 = c1\<lparr>next_pid := next_pid c1 + 1\<rparr>
      in (c2, pid process))"

definition remove_process :: "int \<Rightarrow> controller \<Rightarrow> controller" where
  "remove_process q c = c\<lparr>processes := filter (\<lambda>p. pid p \<noteq> q) (processes c)\<rparr>"

text \<open>\<^verbatim>\<open>get_process\<close> returns a reference: the position of the first process with that pid.\<close>

fun first_index :: "('a \<Rightarrow> bool) \<Rightarrow> 'a list \<Rightarrow> nat option" where
  "first_index P [] = None"
| "first_index P (x # xs) = (if P x then Some 0 else map_option Suc (first_index P xs))"

definition get_process :: "controller \<Rightarrow> int \<Rightarrow> nat option" where
  "get_process c q = first_index (\<lambda>p. pid p = q) (processes c)"

subsection \<open>The handler \<^verbatim>\<open>handle_trigger_failure\<close>\<close>

definition handle_trigger_failure :: "int \<Rightarrow> controller \<Rightarrow> controller" where
  "handle_trigger_failure q c =
     (case get_process c q of
        None \<Rightarrow> c
      | Some k \<Rightarrow>
          if \<not> is_failed (processes c ! k)
          then c\<lparr>processes := (processes c)[k := simulate_failure (processes c ! k)]\<rparr>
          else c)"

subsection \<open>\<^verbatim>\<open>initiate_checkpoint\<close>\<close>

text \<open>
  The calls of \<^verbatim>\<open>socketio.sleep\<close> in \<^verbatim>\<open>initiate_checkpoint\<close>: line 131, line 143 (after
  the tentative checkpoint of the process at a position), line 145, line 155, line 163
  (after the commit of the process at a position) and line 172.
\<close>

datatype yield_point =
    Before_phase1
  | After_tentative nat
  | After_phase1
  | Before_commit
  | After_commit nat
  | Before_reset

text \<open>
  \<open>sched y\<close> lists the pids of the \<^verbatim>\<open>trigger_failure\<close> events that arrive while the run
  sleeps at \<open>y\<close>; each runs \<^verbatim>\<open>handle_trigger_failure\<close> to its end.
\<close>

definition socketio_sleep :: "(yield_point \<Rightarrow> int list) \<Rightarrow> yield_point \<Rightarrow> controller \<Rightarrow> controller" where
  "socketio_sleep sched y c = foldl (\<lambda>c' q. handle_trigger_failure q c') c (sched y)"

text \<open>
  Phase 1, the first loop over \<^verbatim>\<open>self.processes\<close>; \<open>env i\<close> is the clock reading and
  the uuid text that the process at position \<open>i\<close> obtains.
\<close>

fun phase1_yielding :: "(yield_point \<Rightarrow> int list) \<Rightarrow> (nat \<Rightarrow> real \<times> string) \<Rightarrow> nat list
    \<Rightarrow> controller \<Rightarrow> (nat \<times> checkpoint) list \<Rightarrow> controller \<times> (nat \<times> checkpoint) list" where
  "phase1_yielding sched env [] c tentative_checkpoints = (c, tentative_checkpoints)"
| "phase1_yielding sched env (i # rest) c tentative_checkpoints =
     (if \<not> is_failed (processes c ! i) then
        (let (p, ckpt) = take_tentative_checkpoint (env i) (processes c ! i);
             c1 = c\<lparr>processes := (processes c)[i := p]\<rparr>;
             c2 = emit_log (Tentative_checkpoint (custom_name p) (checkpoint_id ckpt)
                              (computation_step (state p))) ''info'' c1;
             c3 = socketio_sleep sched (After_tentative i) c2
         in phase1_yielding sched env rest c3 (tentative_checkpoints @ [(i, ckpt)]))
      else phase1_yielding sched env rest c tentative_checkpoints)"

fun commit_all_yielding :: "(yield_point \<Rightarrow> int list) \<Rightarrow> (nat \<times> checkpoint) list \<Rightarrow> controller
    \<Rightarrow> controller" where
  "commit_all_yielding sched [] c = c"
| "commit_all_yielding sched ((i, ckpt) # rest) c =
     (let p = commit_checkpoint ckpt (processes c ! i);
          c1 = c\<lparr>processes := (processes c)[i := p]\<rparr>;
          c2 = emit_log (Checkpoint_committed (custom_name p) (checkpoint_id ckpt)) ''success'' c1;
          c3 = socketio_sleep sched (After_commit i) c2
      in commit_all_yielding sched rest c3)"

text \<open>The two loops when no event arrives while they sleep.\<close>

fun phase1 :: "(nat \<Rightarrow> real \<times> string) \<Rightarrow> nat list \<Rightarrow> controller \<Rightarrow> (nat \<times> checkpoint) list
    \<Rightarrow> controller \<times> (nat \<times> checkpoint) list" where
  "phase1 env [] c tentative_checkpoints = (c, tentative_checkpoints)"
| "phase1 env (i # rest) c tentative_checkpoints =
     (if \<not> is_failed (processes c ! i) then
        (let (p, ckpt) = take_tentative_checkpoint (env i) (processes c ! i);
             c1 = c\<lparr>processes := (processes c)[i := p]\<rparr>;
             c2 = emit_log (Tentative_checkpoint (custom_name p) (checkpoint_id ckpt)
                              (computation_step (state p))) ''info'' c1
         in phase1 env rest c2 (tentative_checkpoints @ [(i, ckpt)]))
      else phase1 env rest c tentative_checkpoints)"

fun commit_all :: "(nat \<times> checkpoint) list \<Rightarrow> controller \<Rightarrow> controller" where
  "commit_all [] c = c"
| "commit_all ((i, ckpt) # rest) c =
     (let p = commit_checkpoint ckpt (processes c ! i);
          c1 = c\<lparr>processes := (processes c)[i := p]\<rparr>;
          c2 = emit_log (Checkpoint_committed (custom_name p) (checkpoint_id ckpt)) ''success'' c1
      in commit_all rest c2)"

fun abort_all :: "(nat \<times> checkpoint) list \<Rightarrow> controller \<Rightarrow> controller" where
  "abort_all [] c = c"
| "abort_all ((i, ckpt) # rest) c =
     abort_all rest (c\<lparr>processes := (processes c)[i := abort_checkpoint (processes c ! i)]\<rparr>)"

text \<open>The last loop of \<^verbatim>\<open>initiate_checkpoint\<close> (lines 173 to 176).\<close>

definition reset_running :: "process \<Rightarrow> process" where
  "reset_running p =
     (if \<not> is_failed p then (p\<lparr>status := ''running''\<rparr>)\<lparr>checkpoint_type := None\<rparr> else p)"

text \<open>
  \<^verbatim>\<open>initiate_checkpoint\<close> as \<^verbatim>\<open>handle_trigger_checkpoint\<close> starts it, in the
  background, under the schedule \<open>sched\<close>.  Line 148 counts the processes that are not failed
  when it is reached, after the sleep of line 145.
\<close>

definition initiate_checkpoint_yielding :: "(yield_point \<Rightarrow> int list) \<Rightarrow> (nat \<Rightarrow> real \<times> string)
    \<Rightarrow> controller \<Rightarrow> controller \<times> bool" where
  "initiate_checkpoint_yielding sched env c =
     (let c0 = socketio_sleep sched Before_phase1 (emit_log Checkpoint_phase1 ''checkpoint'' c);
          (c1, tentative_checkpoints) = phase1_yielding sched env [0..<length (processes c0)] c0 [];
          c2 = socketio_sleep sched After_phase1 c1;
          all_success = (length tentative_checkpoints
                           = length (filter (\<lambda>p. \<not> is_failed p) (processes c2)));
          c3 = (if all_success
                then commit_all_yielding sched tentative_checkpoints
                       (socketio_sleep sched Before_commit
                          (emit_log Checkpoint_phase2_committing ''success'' c2))
                else abort_all tentative_checkpoints
                       (emit_log Checkpoint_aborted ''error'' c2));
          c4 = socketio_sleep sched Before_reset c3;
          c5 = c4\<lparr>processes := map reset_running (processes c4)\<rparr>
      in (c5, all_success))"

text \<open>The schedule with no event, and the run of \<^verbatim>\<open>initiate_checkpoint\<close> under it.\<close>

definition quiet :: "yield_point \<Rightarrow> int list" where
  "quiet y = []"

definition initiate_checkpoint :: "(nat \<Rightarrow> real \<times> string) \<Rightarrow> controller \<Rightarrow> controller \<times> bool" where
  "initiate_checkpoint env c = initiate_checkpoint_yielding quiet env c"

subsection \<open>\<^verbatim>\<open>initiate_recovery\<close>\<close>

text \<open>
  The loop calling \<^verbatim>\<open>restore_from_checkpoint\<close> on every process; \<^verbatim>\<open>if ckpt_id:\<close> is
  false for \<^verbatim>\<open>None\<close> and for the empty string.
\<close>

fun restore_all :: "nat list \<Rightarrow> controller \<Rightarrow> controller" where
  "restore_all [] c = c"
| "restore_all (i # rest) c =
     (let (p, ckpt_id) = restore_from_checkpoint (processes c ! i);
          c1 = c\<lparr>processes := (processes c)[i := p]\<rparr>;
          c2 = (case ckpt_id of
                  None \<Rightarrow> c1
                | Some cid \<Rightarrow>
                    if cid \<noteq> [] then
                      emit_log (Restored_to_checkpoint (custom_name p) cid
                                  (computation_step (state p))) ''recovery'' c1
                    else c1)
      in restore_all rest c2)"

definition initiate_recovery :: "int \<Rightarrow> controller \<Rightarrow> controller" where
  "initiate_recovery failed_pid c =
     (case get_process c failed_pid of
        None \<Rightarrow> c
      | Some k \<Rightarrow>
          (let c1 = emit_log (Recovery_initiated (custom_name (processes c ! k))) ''recovery'' c;
               c2 = c1\<lparr>processes := (processes c1)[k := (processes c1 ! k)\<lparr>is_failed := False\<rparr>]\<rparr>;
               c3 = restore_all [0..<length (processes c2)] c2;
               c4 = c3\<lparr>processes := map (\<lambda>p. p\<lparr>status := ''running''\<rparr>) (processes c3)\<rparr>
           in emit_log Recovery_complete ''success'' c4))"

subsection \<open>\<^verbatim>\<open>step_computation\<close>\<close>

datatype error = ZeroDivisionError

text \<open>
  \<open>draws i\<close> are the random draws of the process at position \<open>i\<close>.  Python's \<^verbatim>\<open>%\<close>
  raises for a zero divisor, and \<^verbatim>\<open>and\<close> evaluates it only in auto mode; the
  controller as the exception leaves it is returned with the error.  For a nonzero
  divisor \<^verbatim>\<open>%\<close> on integers is \<open>mod\<close> (the sign of the divisor).
\<close>

definition advance_all :: "(nat \<Rightarrow> step_draws) \<Rightarrow> controller \<Rightarrow> controller" where
  "advance_all draws c =
     c\<lparr>processes := map (\<lambda>(i, p). simulate_computation (computation_speed c) (draws i) p)
                        (enumerate 0 (processes c))\<rparr>"

definition step_computation :: "(nat \<Rightarrow> step_draws) \<Rightarrow> (nat \<Rightarrow> real \<times> string) \<Rightarrow> controller
    \<Rightarrow> (error \<times> controller) + controller" where
  "step_computation draws env c =
     (let c1 = c\<lparr>step_count := step_count c + 1\<rparr>;
          c2 = emit_log (Computation_step (step_count c1)) ''step'' c1;
          c3 = advance_all draws c2
      in if auto_mode c3 then
           (if checkpoint_frequency c3 = 0 then Inl (ZeroDivisionError, c3)
            else if step_count c3 mod checkpoint_frequency c3 = 0
                 then Inr (fst (initiate_checkpoint env c3))
                 else Inr c3)
         else Inr c3)"

subsection \<open>The handler \<^verbatim>\<open>handle_start_auto\<close>\<close>

text \<open>
  The arguments are \<^verbatim>\<open>data.get('speed', 1.0)\<close> and \<^verbatim>\<open>data.get('frequency', 5)\<close>; starting
  the background loop is not part of the controller's state.
\<close>

definition handle_start_auto :: "real \<Rightarrow> int \<Rightarrow> controller \<Rightarrow> controller" where
  "handle_start_auto speed frequency c =
     c\<lparr>auto_mode := True, is_running := True, is_paused := False,
       computation_speed := speed, checkpoint_frequency := frequency\<rparr>"

section \<open>Notions used in the statements\<close>

text \<open>
  What one run of \<^verbatim>\<open>initiate_checkpoint\<close> does to a single process: nothing when it has
  failed, otherwise tentative checkpoint, commit and the final reset.
\<close>

definition checkpointed :: "real \<times> string \<Rightarrow> process \<Rightarrow> process" where
  "checkpointed tu p =
     (if is_failed p then p
      else reset_running (commit_checkpoint (snd (take_tentative_checkpoint tu p))
                            (fst (take_tentative_checkpoint tu p))))"

text \<open>What \<^verbatim>\<open>initiate_recovery\<close> does to a single process after line 192.\<close>

definition rolled_back :: "process \<Rightarrow> process" where
  "rolled_back p = (fst (restore_from_checkpoint p))\<lparr>status := ''running''\<rparr>"

text \<open>
  The number of protocol runs started so far: every call of \<^verbatim>\<open>initiate_checkpoint\<close>
  emits the phase 1 banner first, and nothing else emits it.
\<close>

definition protocol_runs :: "controller \<Rightarrow> nat" where
  "protocol_runs c = length (filter (\<lambda>e. fst e = Checkpoint_phase1) (emitted c))"

text \<open>
  The controller that a call of \<^verbatim>\<open>step_computation\<close> leaves behind, whether it
  returned or raised.
\<close>

definition outcome :: "(error \<times> controller) + controller \<Rightarrow> controller" where
  "outcome r = (case r of Inl (e, c) \<Rightarrow> c | Inr c \<Rightarrow> c)"

text \<open>Consecutive calls of \<^verbatim>\<open>step_computation\<close>, each with its own draws; an exception ends the run.\<close>

fun run_steps :: "((nat \<Rightarrow> step_draws) \<times> (nat \<Rightarrow> real \<times> string)) list \<Rightarrow> controller
    \<Rightarrow> (error \<times> controller) + controller" where
  "run_steps [] c = Inr c"
| "run_steps ((draws, env) # rest) c =
     (case step_computation draws env c of
        Inl e \<Rightarrow> Inl e
      | Inr c' \<Rightarrow> run_steps rest c')"

text \<open>The first part of \<^verbatim>\<open>step_computation\<close>: counter, log line and the loop over the processes.\<close>

definition advanced :: "(nat \<Rightarrow> step_draws) \<Rightarrow> controller \<Rightarrow> process list" where
  "advanced draws c =
     map (\<lambda>(i, p). simulate_computation (computation_speed c) (draws i) p) (enumerate 0 (processes c))"

definition ticked :: "(nat \<Rightarrow> step_draws) \<Rightarrow> controller \<Rightarrow> controller" where
  "ticked draws c =
     advance_all draws (emit_log (Computation_step (step_count c + 1)) ''step''
                          (c\<lparr>step_count := step_count c + 1\<rparr>))"

text \<open>
  A sequence of \<^verbatim>\<open>add_process\<close> and \<^verbatim>\<open>remove_process\<close> calls; \<open>run_commands\<close> returns the
  final controller and the pids that the \<^verbatim>\<open>add_process\<close> calls returned, in call order.
\<close>

datatype command = Add_process "string option" init_draws | Remove_process int

fun run_commands :: "command list \<Rightarrow> controller \<Rightarrow> controller \<times> int list" where
  "run_commands [] c = (c, [])"
| "run_commands (Add_process cname d # rest) c =
     (let (c1, new_pid) = add_process cname d c;
          (c2, later) = run_commands rest c1
      in (c2, new_pid # later))"
| "run_commands (Remove_process q # rest) c = run_commands rest (remove_process q c)"

text \<open>The invariant of the data model: a failed process has status \<open>failed\<close>.\<close>

definition failed_consistent :: "controller \<Rightarrow> bool" where
  "failed_consistent c = (\<forall>p\<in>set (processes c). is_failed p \<longrightarrow> status p = ''failed'')"

text \<open>
  The controller when the loop of phase 1 starts, the tentative checkpoints that phase 1
  collects, and the controller when line 148 takes the decision.
\<close>

definition phase1_start :: "(yield_point \<Rightarrow> int list) \<Rightarrow> controller \<Rightarrow> controller" where
  "phase1_start sched c =
     socketio_sleep sched Before_phase1 (emit_log Checkpoint_phase1 ''checkpoint'' c)"

definition tentative_of :: "(yield_point \<Rightarrow> int list) \<Rightarrow> (nat \<Rightarrow> real \<times> string) \<Rightarrow> controller
    \<Rightarrow> (nat \<times> checkpoint) list" where
  "tentative_of sched env c =
     snd (phase1_yielding sched env [0..<length (processes c)] (phase1_start sched c) [])"

definition at_decision :: "(yield_point \<Rightarrow> int list) \<Rightarrow> (nat \<Rightarrow> real \<times> string) \<Rightarrow> controller
    \<Rightarrow> controller" where
  "at_decision sched env c =
     socketio_sleep sched After_phase1
       (fst (phase1_yielding sched env [0..<length (processes c)] (phase1_start sched c) []))"

text \<open>
  The process at position \<open>i\<close> is not failed when its turn in phase 1 comes: the test of
  line 135, in the controller that the turns before it leave behind.
\<close>

definition participant :: "(yield_point \<Rightarrow> int list) \<Rightarrow> (nat \<Rightarrow> real \<times> string) \<Rightarrow> controller \<Rightarrow> nat \<Rightarrow> bool" where
  "participant sched env c i \<longleftrightarrow>
     \<not> is_failed (processes (fst (phase1_yielding sched env [0..<i] (phase1_start sched c) [])) ! i)"

text \<open>
  What no \<^verbatim>\<open>trigger_failure\<close> event and no step of the protocol before the commit changes
  in a process; \<open>evolves c c'\<close> says that \<open>c'\<close> has the same processes as \<open>c\<close> up to status,
  checkpoint type and new failures.
\<close>

definition frozen :: "process \<Rightarrow> int \<times> pstate \<times> (int \<times> int) list \<times> (int \<times> int) list \<times> checkpoint list" where
  "frozen p = (pid p, state p, sent_counter p, rcvd_counter p, checkpoints p)"

definition evolves :: "controller \<Rightarrow> controller \<Rightarrow> bool" where
  "evolves c c' \<longleftrightarrow>
     map frozen (processes c') = map frozen (processes c) \<and>
     (\<forall>j. is_failed (processes c ! j) \<longrightarrow> is_failed (processes c' ! j))"

text \<open>The log entries that a run has added, and those that report a commit.\<close>

definition new_log :: "controller \<Rightarrow> controller \<Rightarrow> (log_message \<times> string) list" where
  "new_log c c' = drop (length (emitted c)) (emitted c')"

fun is_commit :: "log_message \<Rightarrow> bool" where
  "is_commit (Checkpoint_committed n i) = True"
| "is_commit m = False"

section \<open>Concrete inputs\<close>

definition draws0 :: init_draws where
  "draws0 = \<lparr> i_temperature = 1, i_pressure = -2, i_wind_speed = 1 / 2, i_humidity = 3 \<rparr>"

definition ex_env :: "nat \<Rightarrow> real \<times> string" where
  "ex_env i = (1700000000 + real i, ''3f2a9c1e-77aa-4b10'')"

definition ex_draws :: "nat \<Rightarrow> step_draws" where
  "ex_draws i = \<lparr> u_temperature = 1 / 4, u_pressure = -1, u_wind_speed = 1 / 10,
                  u_humidity = 0, r_sent = 4 / 5, r_received = 1 / 2 \<rparr>"

text \<open>Two processes added to a fresh controller.\<close>

definition ex_two :: controller where
  "ex_two = fst (add_process (Some ''B'') draws0
                  (fst (add_process (Some ''A'') draws0 SimulationController)))"

text \<open>A process after one committed checkpoint and one computation step.\<close>

definition ex_process :: process where
  "ex_process = simulate_computation 1 (ex_draws 0)
                  (checkpointed (ex_env 0) (Process 0 1 (Some ''A'') draws0))"

text \<open>The two processes after one protocol run.\<close>

definition ex_checkpointed :: controller where
  "ex_checkpointed = fst (initiate_checkpoint ex_env ex_two)"

text \<open>Then one computation step (auto mode is off).\<close>

definition ex_stepped :: controller where
  "ex_stepped = (case step_computation ex_draws ex_env ex_checkpointed of Inl (e, c) \<Rightarrow> c | Inr c \<Rightarrow> c)"

text \<open>Two fresh processes, both crashed before any checkpoint was taken.\<close>

definition ex_both_failed :: controller where
  "ex_both_failed = handle_trigger_failure 1 (handle_trigger_failure 0 ex_two)"

text \<open>Both processes crashed after a checkpoint and a step.\<close>

definition ex_stepped_failed :: controller where
  "ex_stepped_failed = handle_trigger_failure 1 (handle_trigger_failure 0 ex_stepped)"

text \<open>Auto mode started on the two processes, a checkpoint every 5 steps.\<close>

definition ex_auto :: controller where
  "ex_auto = handle_start_auto 1 5 ex_two"

text \<open>Three additions with a removal in between.\<close>

definition ex_commands :: "command list" where
  "ex_commands = [Add_process (Some ''A'') draws0, Add_process None draws0, Remove_process 0,
                  Add_process (Some ''C'') draws0]"

text \<open>
  Two schedules: process 0 crashes while the run sleeps after its tentative checkpoint;
  process 1 crashes during the first sleep, before any turn.
\<close>

definition fail_after_turn :: "yield_point \<Rightarrow> int list" where
  "fail_after_turn y = (if y = After_tentative 0 then [0] else [])"

definition fail_before_turn :: "yield_point \<Rightarrow> int list" where
  "fail_before_turn y = (if y = Before_phase1 then [1] else [])"

section \<open>The run with no event arriving\<close>

lemma socketio_sleep_quiet [simp]: "socketio_sleep quiet y c = c"
  by (simp add: socketio_sleep_def quiet_def)

lemma phase1_yielding_quiet: "phase1_yielding quiet env js c acc = phase1 env js c acc"
  by (induction js arbitrary: c acc) (simp_all add: Let_def split_beta)

lemma commit_all_yielding_quiet: "commit_all_yielding quiet tc c = commit_all tc c"
  by (induction tc arbitrary: c) (auto simp: Let_def)

lemma initiate_checkpoint_sequential:
  "initiate_checkpoint env c =
     (let c1 = emit_log Checkpoint_phase1 ''checkpoint'' c;
          (c2, tentative_checkpoints) = phase1 env [0..<length (processes c1)] c1 [];
          all_success = (length tentative_checkpoints
                           = length (filter (\<lambda>p. \<not> is_failed p) (processes c2)));
          c3 = (if all_success
                then commit_all tentative_checkpoints
                       (emit_log Checkpoint_phase2_committing ''success'' c2)
                else abort_all tentative_checkpoints
                       (emit_log Checkpoint_aborted ''error'' c2));
          c4 = c3\<lparr>processes := map reset_running (processes c3)\<rparr>
      in (c4, all_success))"
  by (simp add: initiate_checkpoint_def initiate_checkpoint_yielding_def phase1_yielding_quiet
      commit_all_yielding_quiet Let_def split_beta)

section \<open>The protocol loops in closed form\<close>

lemma emit_log_processes [simp]: "processes (emit_log m ty c) = processes c"
  by (simp add: emit_log_def)

lemma is_failed_take_tentative [simp]:
  "is_failed (fst (take_tentative_checkpoint tu p)) = is_failed p"
  by (simp add: take_tentative_checkpoint_def Let_def)

lemma filter_nth_upt:
  "map ((!) xs) (filter (\<lambda>i. P (xs ! i)) [0..<length xs]) = filter P xs"
proof -
  have "filter P (map ((!) xs) [0..<length xs]) = map ((!) xs) (filter (P \<circ> (!) xs) [0..<length xs])"
    by (rule filter_map)
  then show ?thesis by (simp add: map_nth comp_def)
qed

lemma length_filter_nth_upt:
  "length (filter (\<lambda>i. P (xs ! i)) [0..<length xs]) = length (filter P xs)"
  using arg_cong [OF filter_nth_upt [of xs P], of length] by simp

lemma phase1_closed:
  "distinct js \<Longrightarrow> \<forall>j\<in>set js. j < length (processes c) \<Longrightarrow>
   phase1 env js c acc = (c', acc') \<Longrightarrow>
     length (processes c') = length (processes c) \<and>
     (\<forall>j<length (processes c). processes c' ! j =
        (if j \<in> set js \<and> \<not> is_failed (processes c ! j)
         then fst (take_tentative_checkpoint (env j) (processes c ! j)) else processes c ! j)) \<and>
     acc' = acc @ map (\<lambda>j. (j, snd (take_tentative_checkpoint (env j) (processes c ! j))))
                     (filter (\<lambda>j. \<not> is_failed (processes c ! j)) js)"
proof (induction js arbitrary: c acc)
  case Nil
  then show ?case by simp
next
  case (Cons i rest)
  show ?case
  proof (cases "is_failed (processes c ! i)")
    case True
    with Cons.prems have "phase1 env rest c acc = (c', acc')" by simp
    with Cons.IH [of c acc] Cons.prems(1,2) True show ?thesis by auto
  next
    case False
    define p where "p = fst (take_tentative_checkpoint (env i) (processes c ! i))"
    define ck where "ck = snd (take_tentative_checkpoint (env i) (processes c ! i))"
    define c2 where "c2 = emit_log (Tentative_checkpoint (custom_name p) (checkpoint_id ck)
                              (computation_step (state p))) ''info'' (c\<lparr>processes := (processes c)[i := p]\<rparr>)"
    have ps2: "processes c2 = (processes c)[i := p]" by (simp add: c2_def)
    from Cons.prems False have run: "phase1 env rest c2 (acc @ [(i, ck)]) = (c', acc')"
      by (simp add: p_def ck_def c2_def Let_def split_beta)
    from Cons.prems have d: "distinct rest" "i \<notin> set rest" "i < length (processes c)"
      and r: "\<forall>j\<in>set rest. j < length (processes c2)" by (auto simp: ps2)
    have same: "\<And>j. j \<in> set rest \<Longrightarrow> processes c2 ! j = processes c ! j"
      using d by (auto simp: ps2 nth_list_update)
    from Cons.IH [OF d(1) r run] have
      len: "length (processes c') = length (processes c2)" and
      nth: "\<forall>j<length (processes c2). processes c' ! j =
        (if j \<in> set rest \<and> \<not> is_failed (processes c2 ! j)
         then fst (take_tentative_checkpoint (env j) (processes c2 ! j)) else processes c2 ! j)" and
      acc: "acc' = (acc @ [(i, ck)]) @ map (\<lambda>j. (j, snd (take_tentative_checkpoint (env j) (processes c2 ! j))))
                     (filter (\<lambda>j. \<not> is_failed (processes c2 ! j)) rest)"
      by blast+
    have f: "filter (\<lambda>j. \<not> is_failed (processes c2 ! j)) rest = filter (\<lambda>j. \<not> is_failed (processes c ! j)) rest"
      by (rule filter_cong) (auto simp: same)
    have m: "map (\<lambda>j. (j, snd (take_tentative_checkpoint (env j) (processes c2 ! j))))
                     (filter (\<lambda>j. \<not> is_failed (processes c ! j)) rest)
           = map (\<lambda>j. (j, snd (take_tentative_checkpoint (env j) (processes c ! j))))
                     (filter (\<lambda>j. \<not> is_failed (processes c ! j)) rest)"
      by (rule map_cong) (auto simp: same)
    have 1: "length (processes c') = length (processes c)" using len by (simp add: ps2)
    have 2: "\<forall>j<length (processes c). processes c' ! j =
        (if j \<in> set (i # rest) \<and> \<not> is_failed (processes c ! j)
         then fst (take_tentative_checkpoint (env j) (processes c ! j)) else processes c ! j)"
    proof (intro allI impI)
      fix j assume j: "j < length (processes c)"
      show "processes c' ! j =
        (if j \<in> set (i # rest) \<and> \<not> is_failed (processes c ! j)
         then fst (take_tentative_checkpoint (env j) (processes c ! j)) else processes c ! j)"
      proof (cases "j = i")
        case True
        with nth j d False show ?thesis by (simp add: ps2 p_def)
      next
        case False
        with nth j show ?thesis by (simp add: ps2)
      qed
    qed
    have 3: "acc' = acc @ map (\<lambda>j. (j, snd (take_tentative_checkpoint (env j) (processes c ! j))))
                     (filter (\<lambda>j. \<not> is_failed (processes c ! j)) (i # rest))"
      using acc False by (simp add: f m ck_def)
    from 1 2 3 show ?thesis by blast
  qed
qed

lemma commit_all_closed:
  "distinct (map fst tc) \<Longrightarrow> \<forall>i\<in>set (map fst tc). i < length (processes c) \<Longrightarrow>
   length (processes (commit_all tc c)) = length (processes c) \<and>
   (\<forall>j<length (processes c). processes (commit_all tc c) ! j =
      (case map_of tc j of None \<Rightarrow> processes c ! j
       | Some ck \<Rightarrow> commit_checkpoint ck (processes c ! j)))"
proof (induction tc arbitrary: c)
  case Nil
  then show ?case by simp
next
  case (Cons a rest)
  obtain i ck where a: "a = (i, ck)" by (cases a)
  define c2 where "c2 = emit_log (Checkpoint_committed (custom_name (commit_checkpoint ck (processes c ! i)))
       (checkpoint_id ck)) ''success'' (c\<lparr>processes := (processes c)[i := commit_checkpoint ck (processes c ! i)]\<rparr>)"
  have ps2: "processes c2 = (processes c)[i := commit_checkpoint ck (processes c ! i)]"
    by (simp add: c2_def)
  have step: "commit_all (a # rest) c = commit_all rest c2"
    by (simp add: a c2_def Let_def)
  from Cons.prems a have d: "distinct (map fst rest)" "i \<notin> fst ` set rest" "i < length (processes c)"
    and r: "\<forall>k\<in>set (map fst rest). k < length (processes c2)" by (auto simp: ps2)
  from d(2) have none: "map_of rest i = None" by (simp add: map_of_eq_None_iff)
  from Cons.IH [OF d(1) r] have
    len: "length (processes (commit_all rest c2)) = length (processes c2)" and
    nth: "\<forall>j<length (processes c2). processes (commit_all rest c2) ! j =
      (case map_of rest j of None \<Rightarrow> processes c2 ! j
       | Some ck \<Rightarrow> commit_checkpoint ck (processes c2 ! j))" by blast+
  have 1: "length (processes (commit_all (a # rest) c)) = length (processes c)"
    using len unfolding step by (simp add: ps2)
  have 2: "\<forall>j<length (processes c). processes (commit_all (a # rest) c) ! j =
      (case map_of (a # rest) j of None \<Rightarrow> processes c ! j
       | Some ck \<Rightarrow> commit_checkpoint ck (processes c ! j))"
  proof (intro allI impI)
    fix j assume j: "j < length (processes c)"
    show "processes (commit_all (a # rest) c) ! j =
      (case map_of (a # rest) j of None \<Rightarrow> processes c ! j
       | Some ck \<Rightarrow> commit_checkpoint ck (processes c ! j))"
    proof (cases "j = i")
      case True
      with nth j none show ?thesis unfolding step by (simp add: ps2 a)
    next
      case False
      with nth j show ?thesis unfolding step by (simp add: ps2 a split: option.split)
    qed
  qed
  from 1 2 show ?case by blast
qed

lemma map_of_tentative:
  "map_of (map (\<lambda>j. (j, f j)) js) j = (if j \<in> set js then Some (f j) else None)"
  by (induction js) auto

lemma phase1_upt:
  assumes "phase1 env [0..<length (processes c)] c [] = (c', tc)"
  shows "length (processes c') = length (processes c)"
    and "\<forall>j<length (processes c). processes c' ! j =
        (if \<not> is_failed (processes c ! j)
         then fst (take_tentative_checkpoint (env j) (processes c ! j)) else processes c ! j)"
    and "tc = map (\<lambda>j. (j, snd (take_tentative_checkpoint (env j) (processes c ! j))))
                     (filter (\<lambda>j. \<not> is_failed (processes c ! j)) [0..<length (processes c)])"
  using phase1_closed [OF _ _ assms] by auto

lemma phase1_is_failed:
  assumes "phase1 env [0..<length (processes c)] c [] = (c', tc)"
  shows "map is_failed (processes c') = map is_failed (processes c)"
  using phase1_upt(1,2) [OF assms] by (auto intro!: nth_equalityI split: if_splits)

lemma phase1_count:
  assumes "phase1 env [0..<length (processes c)] c [] = (c', tc)"
  shows "length tc = length (filter (\<lambda>p. \<not> is_failed p) (processes c'))"
proof -
  have "length (filter (\<lambda>p. \<not> is_failed p) (processes c')) = length (filter (\<lambda>b. \<not> b) (map is_failed (processes c')))"
    by (simp add: filter_map comp_def)
  also have "\<dots> = length (filter (\<lambda>b. \<not> b) (map is_failed (processes c)))"
    by (simp only: phase1_is_failed [OF assms])
  also have "\<dots> = length (filter (\<lambda>p. \<not> is_failed p) (processes c))"
    by (simp add: filter_map comp_def)
  finally show ?thesis
    by (simp add: phase1_upt(3) [OF assms] length_filter_nth_upt [where P = "\<lambda>p. \<not> is_failed p"])
qed

lemma initiate_checkpoint_result: "snd (initiate_checkpoint env c)"
proof -
  obtain c2 tc where ph: "phase1 env [0..<length (processes (emit_log Checkpoint_phase1 ''checkpoint'' c))]
      (emit_log Checkpoint_phase1 ''checkpoint'' c) [] = (c2, tc)" by (cases "phase1 env [0..<length (processes (emit_log Checkpoint_phase1 ''checkpoint'' c))]
      (emit_log Checkpoint_phase1 ''checkpoint'' c) []")
  from phase1_count [OF ph] ph show ?thesis
    by (simp add: initiate_checkpoint_sequential Let_def)
qed

lemma initiate_checkpoint_processes:
  "processes (fst (initiate_checkpoint env c)) =
     map (\<lambda>(i, p). checkpointed (env i) p) (enumerate 0 (processes c))"
proof -
  define c1 where "c1 = emit_log Checkpoint_phase1 ''checkpoint'' c"
  have ps1: "processes c1 = processes c" by (simp add: c1_def)
  obtain c2 tc where ph: "phase1 env [0..<length (processes c1)] c1 [] = (c2, tc)"
    by (cases "phase1 env [0..<length (processes c1)] c1 []")
  note cnt = phase1_count [OF ph]
  note cl = phase1_upt [OF ph]
  define c2' where "c2' = emit_log Checkpoint_phase2_committing ''success'' c2"
  have ps2: "processes c2' = processes c2" by (simp add: c2'_def)
  have res: "processes (fst (initiate_checkpoint env c)) = map reset_running (processes (commit_all tc c2'))"
    using ph cnt by (simp add: initiate_checkpoint_sequential Let_def c1_def c2'_def)
  have dist: "distinct (map fst tc)" by (simp add: cl(3) comp_def)
  have rng: "\<forall>i\<in>set (map fst tc). i < length (processes c2')"
    by (auto simp: cl(3) ps2 cl(1))
  note cm = commit_all_closed [OF dist rng]
  show ?thesis
  proof (rule nth_equalityI)
    show "length (processes (fst (initiate_checkpoint env c))) =
      length (map (\<lambda>(i, p). checkpointed (env i) p) (enumerate 0 (processes c)))"
      using cm cl(1) by (simp add: res ps2 ps1)
  next
    fix j assume "j < length (processes (fst (initiate_checkpoint env c)))"
    then have j: "j < length (processes c)" using cm cl(1) by (simp add: res ps2 ps1)
    have "processes (commit_all tc c2') ! j =
       (case map_of tc j of None \<Rightarrow> processes c2' ! j
        | Some ck \<Rightarrow> commit_checkpoint ck (processes c2' ! j))"
      using cm j by (simp add: ps2 cl(1) ps1)
    moreover have "map_of tc j = (if \<not> is_failed (processes c ! j)
        then Some (snd (take_tentative_checkpoint (env j) (processes c ! j))) else None)"
      using j by (simp add: cl(3) map_of_tentative ps1)
    moreover have "processes c2' ! j = (if \<not> is_failed (processes c ! j)
         then fst (take_tentative_checkpoint (env j) (processes c ! j)) else processes c ! j)"
      using cl(2) j by (simp add: ps2 ps1)
    ultimately have "processes (commit_all tc c2') ! j =
        (if \<not> is_failed (processes c ! j)
         then commit_checkpoint (snd (take_tentative_checkpoint (env j) (processes c ! j)))
                (fst (take_tentative_checkpoint (env j) (processes c ! j)))
         else processes c ! j)" by simp
    then show "processes (fst (initiate_checkpoint env c)) ! j =
        map (\<lambda>(i, p). checkpointed (env i) p) (enumerate 0 (processes c)) ! j"
      using j cm cl(1)
      by (simp add: res ps2 ps1 nth_enumerate_eq checkpointed_def reset_running_def)
  qed
qed

lemma restore_all_closed:
  "distinct js \<Longrightarrow> \<forall>j\<in>set js. j < length (processes c) \<Longrightarrow>
     length (processes (restore_all js c)) = length (processes c) \<and>
     (\<forall>j<length (processes c). processes (restore_all js c) ! j =
        (if j \<in> set js then fst (restore_from_checkpoint (processes c ! j)) else processes c ! j))"
proof (induction js arbitrary: c)
  case Nil
  then show ?case by simp
next
  case (Cons i rest)
  define p where "p = fst (restore_from_checkpoint (processes c ! i))"
  define r where "r = snd (restore_from_checkpoint (processes c ! i))"
  define c1 where "c1 = c\<lparr>processes := (processes c)[i := p]\<rparr>"
  define c2 where "c2 = (case r of None \<Rightarrow> c1
                | Some cid \<Rightarrow>
                    if cid \<noteq> [] then
                      emit_log (Restored_to_checkpoint (custom_name p) cid
                                  (computation_step (state p))) ''recovery'' c1
                    else c1)"
  have ps2: "processes c2 = (processes c)[i := p]"
    by (simp add: c2_def c1_def split: option.split)
  have step: "restore_all (i # rest) c = restore_all rest c2"
    unfolding c2_def c1_def p_def r_def by (simp add: Let_def split_beta)
  from Cons.prems have d: "distinct rest" "i \<notin> set rest" "i < length (processes c)"
    and rg: "\<forall>j\<in>set rest. j < length (processes c2)" by (auto simp: ps2)
  from Cons.IH [OF d(1) rg] have
    len: "length (processes (restore_all rest c2)) = length (processes c2)" and
    nth: "\<forall>j<length (processes c2). processes (restore_all rest c2) ! j =
        (if j \<in> set rest then fst (restore_from_checkpoint (processes c2 ! j)) else processes c2 ! j)"
    by blast+
  have 1: "length (processes (restore_all (i # rest) c)) = length (processes c)"
    unfolding step using len by (simp add: ps2)
  have 2: "\<forall>j<length (processes c). processes (restore_all (i # rest) c) ! j =
        (if j \<in> set (i # rest) then fst (restore_from_checkpoint (processes c ! j)) else processes c ! j)"
  proof (intro allI impI)
    fix j assume j: "j < length (processes c)"
    show "processes (restore_all (i # rest) c) ! j =
        (if j \<in> set (i # rest) then fst (restore_from_checkpoint (processes c ! j)) else processes c ! j)"
    proof (cases "j = i")
      case True
      with nth j d show ?thesis unfolding step by (simp add: ps2 p_def)
    next
      case False
      with nth j show ?thesis unfolding step by (simp add: ps2)
    qed
  qed
  from 1 2 show ?case by blast
qed

lemma restore_all_upt:
  "processes (restore_all [0..<length (processes c)] c) =
     map (\<lambda>p. fst (restore_from_checkpoint p)) (processes c)"
proof -
  have "distinct [0..<length (processes c)]" and "\<forall>j\<in>set [0..<length (processes c)]. j < length (processes c)"
    by simp_all
  from restore_all_closed [OF this] show ?thesis
    by (auto intro!: nth_equalityI)
qed

lemma first_index_Some:
  "first_index P xs = Some k \<Longrightarrow> k < length xs \<and> P (xs ! k)"
  by (induction xs arbitrary: k) (auto split: if_splits)

lemma first_index_None: "first_index P xs = None \<longleftrightarrow> (\<forall>x\<in>set xs. \<not> P x)"
  by (induction xs) auto

lemma initiate_recovery_processes:
  "processes (initiate_recovery q c) =
     (case get_process c q of
        None \<Rightarrow> processes c
      | Some k \<Rightarrow> map rolled_back ((processes c)[k := (processes c ! k)\<lparr>is_failed := False\<rparr>]))"
proof (cases "get_process c q")
  case None
  then show ?thesis by (simp add: initiate_recovery_def)
next
  case (Some k)
  define c2 where "c2 = (emit_log (Recovery_initiated (custom_name (processes c ! k))) ''recovery'' c)
      \<lparr>processes := (processes c)[k := (processes c ! k)\<lparr>is_failed := False\<rparr>]\<rparr>"
  have ps2: "processes c2 = (processes c)[k := (processes c ! k)\<lparr>is_failed := False\<rparr>]"
    by (simp add: c2_def)
  have "processes (initiate_recovery q c) =
      map (\<lambda>p. p\<lparr>status := ''running''\<rparr>) (processes (restore_all [0..<length (processes c2)] c2))"
    using Some by (simp add: initiate_recovery_def Let_def c2_def)
  also have "\<dots> = map rolled_back (processes c2)"
    by (simp only: restore_all_upt) (simp add: rolled_back_def comp_def)
  finally show ?thesis using Some by (simp add: ps2)
qed

lemma phase1_frame:
  "\<exists>ps es. fst (phase1 env js c acc) = c\<lparr>processes := ps, emitted := emitted c @ es\<rparr> \<and>
      (\<forall>e\<in>set es. fst e \<noteq> Checkpoint_phase1)"
proof (induction js arbitrary: c acc)
  case Nil
  have "c = c\<lparr>processes := processes c, emitted := emitted c @ []\<rparr>" by simp
  then show ?case by (metis phase1.simps(1) fst_conv empty_iff list.set(1))
next
  case (Cons i rest)
  show ?case
  proof (cases "is_failed (processes c ! i)")
    case True
    with Cons.IH [of c acc] show ?thesis by simp
  next
    case False
    define p where "p = fst (take_tentative_checkpoint (env i) (processes c ! i))"
    define ck where "ck = snd (take_tentative_checkpoint (env i) (processes c ! i))"
    define m where "m = (Tentative_checkpoint (custom_name p) (checkpoint_id ck)
                              (computation_step (state p)), ''info'')"
    define c2 where "c2 = c\<lparr>processes := (processes c)[i := p], emitted := emitted c @ [m]\<rparr>"
    from False have step: "phase1 env (i # rest) c acc = phase1 env rest c2 (acc @ [(i, ck)])"
      by (simp add: p_def ck_def c2_def m_def Let_def split_beta emit_log_def)
    from Cons.IH [of c2 "acc @ [(i, ck)]"] obtain ps es where
      r: "fst (phase1 env rest c2 (acc @ [(i, ck)])) = c2\<lparr>processes := ps, emitted := emitted c2 @ es\<rparr>"
      and es: "\<forall>e\<in>set es. fst e \<noteq> Checkpoint_phase1" by blast
    have "fst (phase1 env (i # rest) c acc) = c\<lparr>processes := ps, emitted := emitted c @ (m # es)\<rparr>"
      unfolding step r by (simp add: c2_def)
    moreover have "\<forall>e\<in>set (m # es). fst e \<noteq> Checkpoint_phase1" using es by (simp add: m_def)
    ultimately show ?thesis by blast
  qed
qed

lemma commit_all_frame:
  "\<exists>ps es. commit_all tc c = c\<lparr>processes := ps, emitted := emitted c @ es\<rparr> \<and>
      (\<forall>e\<in>set es. fst e \<noteq> Checkpoint_phase1)"
proof (induction tc arbitrary: c)
  case Nil
  have "c = c\<lparr>processes := processes c, emitted := emitted c @ []\<rparr>" by simp
  then show ?case by (metis commit_all.simps(1) empty_iff list.set(1))
next
  case (Cons a rest)
  obtain i ck where a: "a = (i, ck)" by (cases a)
  define p where "p = commit_checkpoint ck (processes c ! i)"
  define m where "m = (Checkpoint_committed (custom_name p) (checkpoint_id ck), ''success'')"
  define c2 where "c2 = c\<lparr>processes := (processes c)[i := p], emitted := emitted c @ [m]\<rparr>"
  have step: "commit_all (a # rest) c = commit_all rest c2"
    by (simp add: a p_def c2_def m_def Let_def emit_log_def)
  from Cons.IH [of c2] obtain ps es where
    r: "commit_all rest c2 = c2\<lparr>processes := ps, emitted := emitted c2 @ es\<rparr>"
    and es: "\<forall>e\<in>set es. fst e \<noteq> Checkpoint_phase1" by blast
  have "commit_all (a # rest) c = c\<lparr>processes := ps, emitted := emitted c @ (m # es)\<rparr>"
    unfolding step r by (simp add: c2_def)
  moreover have "\<forall>e\<in>set (m # es). fst e \<noteq> Checkpoint_phase1" using es by (simp add: m_def)
  ultimately show ?case by blast
qed

lemma initiate_checkpoint_frame:
  "\<exists>ps es. fst (initiate_checkpoint env c) = c\<lparr>processes := ps, emitted := emitted c @ es\<rparr> \<and>
      length (filter (\<lambda>e. fst e = Checkpoint_phase1) es) = 1"
proof -
  define c1 where "c1 = c\<lparr>emitted := emitted c @ [(Checkpoint_phase1, ''checkpoint'')]\<rparr>"
  obtain c2 tc where ph: "phase1 env [0..<length (processes c)] c1 [] = (c2, tc)"
    by (cases "phase1 env [0..<length (processes c)] c1 []")
  have ps1: "processes c1 = processes c" by (simp add: c1_def)
  from phase1_frame [of env "[0..<length (processes c)]" c1 "[]"] ph obtain ps2 es2 where
    c2: "c2 = c1\<lparr>processes := ps2, emitted := emitted c1 @ es2\<rparr>"
    and es2: "\<forall>e\<in>set es2. fst e \<noteq> Checkpoint_phase1" by auto
  define c2' where "c2' = c2\<lparr>emitted := emitted c2 @ [(Checkpoint_phase2_committing, ''success'')]\<rparr>"
  from commit_all_frame [of tc c2'] obtain ps3 es3 where
    c3: "commit_all tc c2' = c2'\<lparr>processes := ps3, emitted := emitted c2' @ es3\<rparr>"
    and es3: "\<forall>e\<in>set es3. fst e \<noteq> Checkpoint_phase1" by blast
  have cnt: "length tc = length (filter (\<lambda>p. \<not> is_failed p) (processes c2))"
    using phase1_count [of env c1 c2 tc] ph by (simp add: ps1)
  have "fst (initiate_checkpoint env c) =
      (commit_all tc c2')\<lparr>processes := map reset_running (processes (commit_all tc c2'))\<rparr>"
    using ph cnt by (simp add: initiate_checkpoint_sequential Let_def c1_def c2'_def emit_log_def)
  also have "\<dots> = c\<lparr>processes := map reset_running ps3,
       emitted := emitted c @ ((Checkpoint_phase1, ''checkpoint'') # es2 @
                    (Checkpoint_phase2_committing, ''success'') # es3)\<rparr>"
    unfolding c3 by (simp add: c2'_def c2 c1_def)
  finally have "fst (initiate_checkpoint env c) = c\<lparr>processes := map reset_running ps3,
       emitted := emitted c @ ((Checkpoint_phase1, ''checkpoint'') # es2 @
                    (Checkpoint_phase2_committing, ''success'') # es3)\<rparr>" .
  moreover have "length (filter (\<lambda>e. fst e = Checkpoint_phase1) ((Checkpoint_phase1, ''checkpoint'') # es2 @
                    (Checkpoint_phase2_committing, ''success'') # es3)) = 1"
    using es2 es3 by (simp add: filter_empty_conv [THEN iffD2])
  ultimately show ?thesis by blast
qed

lemma ex_two_processes:
  "processes ex_two = [Process 0 1 (Some ''A'') draws0, Process 1 2 (Some ''B'') draws0]"
  by (simp add: ex_two_def add_process_def SimulationController_def Let_def)

lemma ex_process_checkpoints:
  "checkpoints ex_process =
     [\<lparr> ck_pid = 0, ck_timestamp = 1700000000,
        ck_state = \<lparr> temperature = 21, pressure = 1011, wind_speed = 21 / 2, humidity = 63,
                     computation_step = 0 \<rparr>,
        ck_sent_counter = [], ck_rcvd_counter = [], ck_type = ''permanent'',
        checkpoint_id = ''3f2a9c1e'' \<rparr>]"
  by (simp add: ex_process_def simulate_computation_def checkpointed_def Process_def draws0_def
      ex_env_def ex_draws_def take_tentative_checkpoint_def commit_checkpoint_def reset_running_def Let_def)

lemma ex_process_state:
  "state ex_process = \<lparr> temperature = 85 / 4, pressure = 1010, wind_speed = 53 / 5, humidity = 63,
                     computation_step = 1 \<rparr>"
  by (simp add: ex_process_def simulate_computation_def checkpointed_def Process_def draws0_def
      ex_env_def ex_draws_def take_tentative_checkpoint_def commit_checkpoint_def reset_running_def Let_def)

lemma initiate_checkpoint_unfold:
  "phase1 env [0..<length (processes c)] (emit_log Checkpoint_phase1 ''checkpoint'' c) [] = (c2, tc) \<Longrightarrow>
   initiate_checkpoint env c =
     (let all_success = (length tc = length (filter (\<lambda>p. \<not> is_failed p) (processes c2)));
          c3 = (if all_success
                then commit_all tc (emit_log Checkpoint_phase2_committing ''success'' c2)
                else abort_all tc (emit_log Checkpoint_aborted ''error'' c2))
      in (c3\<lparr>processes := map reset_running (processes c3)\<rparr>, all_success))"
  by (simp add: initiate_checkpoint_sequential Let_def)

lemma checkpoints_checkpointed:
  "checkpoints (checkpointed tu p) =
     (if is_failed p then checkpoints p
      else checkpoints p @ [(snd (take_tentative_checkpoint tu p))\<lparr>ck_type := ''permanent''\<rparr>])"
  by (simp add: checkpointed_def reset_running_def commit_checkpoint_def
      take_tentative_checkpoint_def Let_def)

section \<open>Recovery and the concrete inputs\<close>

lemma get_process_Some:
  "get_process c q = Some k \<Longrightarrow> k < length (processes c) \<and> pid (processes c ! k) = q"
  unfolding get_process_def by (rule first_index_Some)

lemma rolled_back_fields:
  "checkpoints (rolled_back p) = checkpoints p"
  "status (rolled_back p) = ''running''"
  "checkpoints p \<noteq> [] \<Longrightarrow> \<not> is_failed (rolled_back p)"
  "checkpoints p \<noteq> [] \<Longrightarrow> state (rolled_back p) = ck_state (last (checkpoints p))"
  "checkpoints p \<noteq> [] \<Longrightarrow> sent_counter (rolled_back p) = ck_sent_counter (last (checkpoints p))"
  "checkpoints p \<noteq> [] \<Longrightarrow> rcvd_counter (rolled_back p) = ck_rcvd_counter (last (checkpoints p))"
  "checkpoints p = [] \<Longrightarrow> rolled_back p = p\<lparr>status := ''running''\<rparr>"
  by (simp_all add: rolled_back_def restore_from_checkpoint_def Let_def)

lemma ex_checkpointed_processes:
  "processes ex_checkpointed =
     [checkpointed (ex_env 0) (Process 0 1 (Some ''A'') draws0),
      checkpointed (ex_env 1) (Process 1 2 (Some ''B'') draws0)]"
  by (simp add: ex_checkpointed_def initiate_checkpoint_processes ex_two_processes enumerate_eq_zip
      upt_rec [of 0] upt_rec [of 1])

lemma auto_mode_ex_checkpointed: "\<not> auto_mode ex_checkpointed"
proof -
  from initiate_checkpoint_frame [of ex_env ex_two] obtain ps es where
    "fst (initiate_checkpoint ex_env ex_two) = ex_two\<lparr>processes := ps, emitted := emitted ex_two @ es\<rparr>"
    by blast
  then show ?thesis
    by (simp add: ex_checkpointed_def ex_two_def add_process_def SimulationController_def Let_def)
qed

lemma computation_speed_ex_checkpointed: "computation_speed ex_checkpointed = 1"
proof -
  from initiate_checkpoint_frame [of ex_env ex_two] obtain ps es where
    "fst (initiate_checkpoint ex_env ex_two) = ex_two\<lparr>processes := ps, emitted := emitted ex_two @ es\<rparr>"
    by blast
  then show ?thesis
    by (simp add: ex_checkpointed_def ex_two_def add_process_def SimulationController_def Let_def)
qed

lemma ex_stepped_processes:
  "processes ex_stepped =
     [ex_process,
      simulate_computation 1 (ex_draws 1) (checkpointed (ex_env 1) (Process 1 2 (Some ''B'') draws0))]"
  by (simp add: ex_stepped_def step_computation_def advance_all_def Let_def emit_log_def
      auto_mode_ex_checkpointed computation_speed_ex_checkpointed ex_checkpointed_processes
      ex_process_def)

lemma pid_ex_process: "pid ex_process = 0"
  by (simp add: ex_process_def simulate_computation_def checkpointed_def Process_def
      take_tentative_checkpoint_def commit_checkpoint_def reset_running_def Let_def)

lemma is_failed_ex_process: "\<not> is_failed ex_process"
  by (simp add: ex_process_def simulate_computation_def checkpointed_def Process_def
      take_tentative_checkpoint_def commit_checkpoint_def reset_running_def Let_def)

lemma get_process_ex_stepped: "get_process ex_stepped 0 = Some 0"
  by (simp add: get_process_def ex_stepped_processes pid_ex_process)

lemma simulate_computation_frame [simp]:
  "pid (simulate_computation k d p) = pid p"
  "is_failed (simulate_computation k d p) = is_failed p"
  "status (simulate_computation k d p) = status p"
  "checkpoints (simulate_computation k d p) = checkpoints p"
  by (simp_all add: simulate_computation_def Let_def)

lemma checkpointed_frame [simp]:
  "pid (checkpointed tu p) = pid p"
  "is_failed (checkpointed tu p) = is_failed p"
  by (simp_all add: checkpointed_def reset_running_def commit_checkpoint_def
      take_tentative_checkpoint_def Let_def)

lemma simulate_failure_fields [simp]:
  "pid (simulate_failure p) = pid p"
  "is_failed (simulate_failure p)"
  "status (simulate_failure p) = ''failed''"
  "checkpoints (simulate_failure p) = checkpoints p"
  by (simp_all add: simulate_failure_def)

lemma Process_fields [simp]:
  "pid (Process q n cname d) = q"
  "\<not> is_failed (Process q n cname d)"
  "status (Process q n cname d) = ''running''"
  "checkpoints (Process q n cname d) = []"
  by (simp_all add: Process_def)

lemma ex_both_failed_processes:
  "processes ex_both_failed =
     [simulate_failure (Process 0 1 (Some ''A'') draws0),
      simulate_failure (Process 1 2 (Some ''B'') draws0)]"
  by (simp add: ex_both_failed_def handle_trigger_failure_def get_process_def ex_two_processes)

lemma ex_stepped_failed_processes:
  "processes ex_stepped_failed =
     [simulate_failure ex_process,
      simulate_failure (simulate_computation 1 (ex_draws 1)
         (checkpointed (ex_env 1) (Process 1 2 (Some ''B'') draws0)))]"
  by (simp add: ex_stepped_failed_def handle_trigger_failure_def get_process_def
      ex_stepped_processes pid_ex_process is_failed_ex_process)

section \<open>Identifiers and the step loop\<close>

lemma run_commands_pids:
  "\<forall>p\<in>set (processes c). pid p < next_pid c \<Longrightarrow> distinct (map pid (processes c)) \<Longrightarrow>
   run_commands cmds c = (c', rets) \<Longrightarrow>
     distinct (map pid (processes c')) \<and>
     (\<forall>p\<in>set (processes c'). pid p < next_pid c') \<and>
     next_pid c \<le> next_pid c' \<and>
     sorted_wrt (<) rets \<and>
     (\<forall>r\<in>set rets. next_pid c \<le> r \<and> r < next_pid c') \<and>
     pid ` set (processes c') \<subseteq> pid ` set (processes c) \<union> set rets"
proof (induction cmds arbitrary: c c' rets)
  case Nil
  then show ?case by auto
next
  case (Cons cmd rest)
  show ?case
  proof (cases cmd)
    case (Add_process cname d)
    define c1 where "c1 = fst (add_process cname d c)"
    have ps1: "processes c1 = processes c @ [Process (next_pid c) (int (length (processes c)) + 1) cname d]"
      and np1: "next_pid c1 = next_pid c + 1"
      and ret: "snd (add_process cname d c) = next_pid c"
      by (simp_all add: c1_def add_process_def Let_def)
    obtain c2 later where rr: "run_commands rest c1 = (c2, later)"
      by (cases "run_commands rest c1")
    from Cons.prems(3) Add_process rr have c': "c' = c2" and rets: "rets = next_pid c # later"
      by (simp_all add: c1_def split_beta ret [symmetric])
    have i1: "\<forall>p\<in>set (processes c1). pid p < next_pid c1"
      using Cons.prems(1) by (auto simp: ps1 np1)
    have i2: "distinct (map pid (processes c1))"
      using Cons.prems(1,2) by (auto simp: ps1)
    from Cons.IH [OF i1 i2 rr] have
      a: "distinct (map pid (processes c2))" and
      b: "\<forall>p\<in>set (processes c2). pid p < next_pid c2" and
      c: "next_pid c1 \<le> next_pid c2" and
      d: "sorted_wrt (<) later" and
      e: "\<forall>r\<in>set later. next_pid c1 \<le> r \<and> r < next_pid c2" and
      f: "pid ` set (processes c2) \<subseteq> pid ` set (processes c1) \<union> set later"
      by blast+
    have "sorted_wrt (<) rets" using d e by (auto simp: rets np1)
    moreover have "\<forall>r\<in>set rets. next_pid c \<le> r \<and> r < next_pid c'"
      using e c by (auto simp: rets np1 c')
    moreover have "pid ` set (processes c') \<subseteq> pid ` set (processes c) \<union> set rets"
      using f by (auto simp: rets c' ps1)
    ultimately show ?thesis using a b c by (simp add: c' np1)
  next
    case (Remove_process q)
    define c1 where "c1 = remove_process q c"
    have ps1: "processes c1 = filter (\<lambda>p. pid p \<noteq> q) (processes c)"
      and np1: "next_pid c1 = next_pid c"
      by (simp_all add: c1_def remove_process_def)
    from Cons.prems(3) Remove_process have rr: "run_commands rest c1 = (c', rets)"
      by (simp add: c1_def)
    have i1: "\<forall>p\<in>set (processes c1). pid p < next_pid c1"
      using Cons.prems(1) by (auto simp: ps1 np1)
    have i2: "distinct (map pid (processes c1))"
      using Cons.prems(2) by (simp add: ps1 distinct_map_filter)
    from Cons.IH [OF i1 i2 rr] show ?thesis by (auto simp: ps1 np1)
  qed
qed

lemma initiate_checkpoint_fields:
  "auto_mode (fst (initiate_checkpoint env c)) = auto_mode c"
  "checkpoint_frequency (fst (initiate_checkpoint env c)) = checkpoint_frequency c"
  "step_count (fst (initiate_checkpoint env c)) = step_count c"
  "computation_speed (fst (initiate_checkpoint env c)) = computation_speed c"
  "next_pid (fst (initiate_checkpoint env c)) = next_pid c"
  "protocol_runs (fst (initiate_checkpoint env c)) = protocol_runs c + 1"
proof -
  from initiate_checkpoint_frame [of env c] obtain ps es where
    eq: "fst (initiate_checkpoint env c) = c\<lparr>processes := ps, emitted := emitted c @ es\<rparr>"
    and es: "length (filter (\<lambda>e. fst e = Checkpoint_phase1) es) = 1" by blast
  show "auto_mode (fst (initiate_checkpoint env c)) = auto_mode c"
    "checkpoint_frequency (fst (initiate_checkpoint env c)) = checkpoint_frequency c"
    "step_count (fst (initiate_checkpoint env c)) = step_count c"
    "computation_speed (fst (initiate_checkpoint env c)) = computation_speed c"
    "next_pid (fst (initiate_checkpoint env c)) = next_pid c"
    "protocol_runs (fst (initiate_checkpoint env c)) = protocol_runs c + 1"
    unfolding eq using es by (simp_all add: protocol_runs_def)
qed

lemma ticked_fields:
  "auto_mode (ticked draws c) = auto_mode c"
  "checkpoint_frequency (ticked draws c) = checkpoint_frequency c"
  "step_count (ticked draws c) = step_count c + 1"
  "processes (ticked draws c) = advanced draws c"
  "protocol_runs (ticked draws c) = protocol_runs c"
  by (simp_all add: ticked_def advance_all_def emit_log_def protocol_runs_def advanced_def)

lemma step_computation_cases:
  "step_computation draws env c =
     (if auto_mode c \<and> checkpoint_frequency c = 0 then Inl (ZeroDivisionError, ticked draws c)
      else if auto_mode c \<and> (step_count c + 1) mod checkpoint_frequency c = 0
           then Inr (fst (initiate_checkpoint env (ticked draws c)))
           else Inr (ticked draws c))"
  by (simp add: step_computation_def Let_def ticked_def advance_all_def emit_log_def)

lemma step_computation_single:
  assumes "0 \<le> step_count c"
  shows "step_count (outcome (step_computation draws env c)) = step_count c + 1"
    and "processes (outcome (step_computation draws env c)) =
          (if auto_mode c \<and> checkpoint_frequency c dvd step_count c + 1
           then map (\<lambda>(i, p). checkpointed (env i) p) (enumerate 0 (advanced draws c))
           else advanced draws c)"
    and "protocol_runs (outcome (step_computation draws env c)) =
          protocol_runs c + (if auto_mode c \<and> checkpoint_frequency c dvd step_count c + 1 then 1 else 0)"
    and "(\<exists>e c'. step_computation draws env c = Inl (e, c')) = (auto_mode c \<and> checkpoint_frequency c = 0)"
proof -
  have dv: "checkpoint_frequency c dvd step_count c + 1 \<longleftrightarrow>
      checkpoint_frequency c \<noteq> 0 \<and> (step_count c + 1) mod checkpoint_frequency c = 0"
    using assms by (auto simp: mod_eq_0_iff_dvd)
  show "step_count (outcome (step_computation draws env c)) = step_count c + 1"
    by (simp add: step_computation_cases outcome_def initiate_checkpoint_fields ticked_fields)
  show "processes (outcome (step_computation draws env c)) =
          (if auto_mode c \<and> checkpoint_frequency c dvd step_count c + 1
           then map (\<lambda>(i, p). checkpointed (env i) p) (enumerate 0 (advanced draws c))
           else advanced draws c)"
    unfolding dv
    by (simp add: step_computation_cases outcome_def initiate_checkpoint_processes ticked_fields)
  show "protocol_runs (outcome (step_computation draws env c)) =
          protocol_runs c + (if auto_mode c \<and> checkpoint_frequency c dvd step_count c + 1 then 1 else 0)"
    unfolding dv
    by (simp add: step_computation_cases outcome_def initiate_checkpoint_fields ticked_fields)
  show "(\<exists>e c'. step_computation draws env c = Inl (e, c')) = (auto_mode c \<and> checkpoint_frequency c = 0)"
    by (simp add: step_computation_cases)
qed

lemma run_steps_count:
  "auto_mode c \<Longrightarrow> checkpoint_frequency c = 5 \<Longrightarrow> 0 \<le> step_count c \<Longrightarrow>
   \<exists>c'. run_steps steps c = Inr c' \<and>
        step_count c' = step_count c + int (length steps) \<and>
        int (protocol_runs c') =
          int (protocol_runs c) + (step_count c + int (length steps)) div 5 - step_count c div 5"
proof (induction steps arbitrary: c)
  case Nil
  then show ?case by simp
next
  case (Cons a rest)
  obtain draws env where a: "a = (draws, env)" by (cases a)
  define c1 where "c1 = (if (step_count c + 1) mod 5 = 0
      then fst (initiate_checkpoint env (ticked draws c)) else ticked draws c)"
  have st: "step_computation draws env c = Inr c1"
    using Cons.prems by (simp add: step_computation_cases c1_def)
  have f1: "auto_mode c1" "checkpoint_frequency c1 = 5" "step_count c1 = step_count c + 1"
    using Cons.prems by (simp_all add: c1_def initiate_checkpoint_fields ticked_fields)
  have r1: "int (protocol_runs c1) = int (protocol_runs c) + (if (step_count c + 1) mod 5 = 0 then 1 else 0)"
    by (simp add: c1_def initiate_checkpoint_fields ticked_fields)
  from f1 Cons.prems have nn: "0 \<le> step_count c1" by simp
  from Cons.IH [OF f1(1,2) nn] obtain c' where
    run: "run_steps rest c1 = Inr c'" and
    sc: "step_count c' = step_count c1 + int (length rest)" and
    pr: "int (protocol_runs c') =
          int (protocol_runs c1) + (step_count c1 + int (length rest)) div 5 - step_count c1 div 5"
    by blast
  have ar: "(step_count c + 1) div 5 - step_count c div 5 = (if (step_count c + 1) mod 5 = 0 then 1 else 0)"
    by presburger
  have "run_steps (a # rest) c = Inr c'" by (simp add: a st run)
  moreover have "step_count c' = step_count c + int (length (a # rest))"
    using sc f1 by simp
  moreover have "int (protocol_runs c') =
          int (protocol_runs c) + (step_count c + int (length (a # rest))) div 5 - step_count c div 5"
    using pr r1 ar f1(3) by (simp add: add.commute add.left_commute)
  ultimately show ?case by blast
qed

lemma ex_auto_fields:
  "auto_mode ex_auto" "checkpoint_frequency ex_auto = 5" "step_count ex_auto = 0"
  "protocol_runs ex_auto = 0"
  by (simp_all add: ex_auto_def handle_start_auto_def ex_two_def add_process_def
      SimulationController_def Let_def protocol_runs_def)

lemma ex_commands_run:
  "snd (run_commands ex_commands SimulationController) = [0, 1, 2]"
  "map pid (processes (fst (run_commands ex_commands SimulationController))) = [1, 2]"
  by (simp_all add: ex_commands_def add_process_def remove_process_def SimulationController_def
      Let_def split_beta)

section \<open>Operations that keep a failed process's status\<close>

text \<open>
  Every operation but \<^verbatim>\<open>initiate_recovery\<close> on an existing pid keeps the invariant; the
  final loop of \<^verbatim>\<open>initiate_checkpoint\<close> does so by its test on \<open>is_failed\<close>.
\<close>

lemma checkpointed_failed: "is_failed p \<Longrightarrow> checkpointed tu p = p"
  by (simp add: checkpointed_def)

lemma in_set_enumerate_snd: "(i, p) \<in> set (enumerate n xs) \<Longrightarrow> p \<in> set xs"
  by (auto simp: in_set_enumerate_eq)

lemma failed_consistent_add_process:
  "failed_consistent c \<Longrightarrow> failed_consistent (fst (add_process cname d c))"
  by (auto simp: failed_consistent_def add_process_def Let_def)

lemma failed_consistent_remove_process:
  "failed_consistent c \<Longrightarrow> failed_consistent (remove_process q c)"
  by (auto simp: failed_consistent_def remove_process_def)

lemma failed_consistent_trigger_failure:
  "failed_consistent c \<Longrightarrow> failed_consistent (handle_trigger_failure q c)"
  by (auto simp: failed_consistent_def handle_trigger_failure_def
      split: option.splits dest!: set_update_subset_insert [THEN subsetD])

lemma failed_consistent_initiate_checkpoint:
  "failed_consistent c \<Longrightarrow> failed_consistent (fst (initiate_checkpoint env c))"
  unfolding failed_consistent_def initiate_checkpoint_processes
  by (auto simp: checkpointed_failed dest: in_set_enumerate_snd)

lemma failed_consistent_ticked:
  "failed_consistent c \<Longrightarrow> failed_consistent (ticked draws c)"
  unfolding failed_consistent_def ticked_fields advanced_def
  by (auto dest: in_set_enumerate_snd)

lemma failed_consistent_step_computation:
  "failed_consistent c \<Longrightarrow> failed_consistent (outcome (step_computation draws env c))"
  by (simp add: step_computation_cases outcome_def failed_consistent_ticked
      failed_consistent_initiate_checkpoint)

lemma failed_consistent_recovery_unknown_pid:
  "get_process c q = None \<Longrightarrow> initiate_recovery q c = c"
  by (simp add: initiate_recovery_def)

section \<open>The checkpoint run under a schedule\<close>

lemma evolves_refl [simp]: "evolves c c"
  by (simp add: evolves_def)

lemma evolves_trans: "evolves a b \<Longrightarrow> evolves b c \<Longrightarrow> evolves a c"
  by (simp add: evolves_def)

lemma evolves_length: "evolves c c' \<Longrightarrow> length (processes c') = length (processes c)"
  unfolding evolves_def using map_eq_imp_length_eq by blast

lemma evolves_frozen:
  "evolves c c' \<Longrightarrow> j < length (processes c) \<Longrightarrow> frozen (processes c' ! j) = frozen (processes c ! j)"
proof -
  assume e: "evolves c c'" and j: "j < length (processes c)"
  from e have m: "map frozen (processes c') = map frozen (processes c)" by (simp add: evolves_def)
  from evolves_length [OF e] j have j': "j < length (processes c')" by simp
  from m have "map frozen (processes c') ! j = map frozen (processes c) ! j" by simp
  with j j' show ?thesis by simp
qed

lemma evolves_checkpoints:
  "evolves c c' \<Longrightarrow> map checkpoints (processes c') = map checkpoints (processes c)"
proof -
  assume e: "evolves c c'"
  have "checkpoints = (\<lambda>t. snd (snd (snd (snd t)))) \<circ> frozen"
    by (simp add: fun_eq_iff frozen_def)
  then have "map checkpoints (processes c') = map (\<lambda>t. snd (snd (snd (snd t)))) (map frozen (processes c'))"
    and "map checkpoints (processes c) = map (\<lambda>t. snd (snd (snd (snd t)))) (map frozen (processes c))"
    by simp_all
  with e show ?thesis by (simp add: evolves_def)
qed

lemma evolves_is_failed: "evolves c c' \<Longrightarrow> is_failed (processes c ! j) \<Longrightarrow> is_failed (processes c' ! j)"
  by (simp add: evolves_def)

lemma evolves_update:
  assumes "processes c' = (processes c)[i := p]"
    and "frozen p = frozen (processes c ! i)"
    and "is_failed (processes c ! i) \<longrightarrow> is_failed p"
  shows "evolves c c'"
proof -
  have "map frozen ((processes c)[i := p]) = (map frozen (processes c))[i := frozen p]"
    by (rule map_update)
  also have "\<dots> = map frozen (processes c)"
  proof (cases "i < length (processes c)")
    case True
    then have "frozen p = map frozen (processes c) ! i" using assms(2) by simp
    then show ?thesis by (simp only: list_update_id)
  next
    case False
    then show ?thesis by (simp add: list_update_beyond)
  qed
  finally have 1: "map frozen (processes c') = map frozen (processes c)" by (simp add: assms(1))
  have 2: "\<forall>j. is_failed (processes c ! j) \<longrightarrow> is_failed (processes c' ! j)"
  proof (intro allI impI)
    fix j assume f: "is_failed (processes c ! j)"
    show "is_failed (processes c' ! j)"
    proof (cases "j = i \<and> i < length (processes c)")
      case True
      with f assms(1,3) show ?thesis by simp
    next
      case False
      then have "(processes c)[i := p] ! j = processes c ! j"
        by (cases "i < length (processes c)") (auto simp: nth_list_update list_update_beyond)
      with f assms(1) show ?thesis by simp
    qed
  qed
  from 1 2 show ?thesis by (simp add: evolves_def)
qed

lemma evolves_emit_log [simp]: "evolves c (emit_log m ty c)"
  by (simp add: evolves_def)

lemma evolves_trigger_failure: "evolves c (handle_trigger_failure q c)"
proof (cases "get_process c q")
  case None
  then show ?thesis by (simp add: handle_trigger_failure_def)
next
  case (Some k)
  show ?thesis
  proof (cases "is_failed (processes c ! k)")
    case True
    with Some show ?thesis by (simp add: handle_trigger_failure_def)
  next
    case False
    with Some have "processes (handle_trigger_failure q c) = (processes c)[k := simulate_failure (processes c ! k)]"
      by (simp add: handle_trigger_failure_def)
    then show ?thesis
      by (rule evolves_update) (simp_all add: frozen_def simulate_failure_def)
  qed
qed

lemma evolves_fold_failures:
  "evolves c (foldl (\<lambda>c' q. handle_trigger_failure q c') c qs)"
proof (induction qs arbitrary: c)
  case Nil
  show ?case by simp
next
  case (Cons q qs)
  have "evolves c (handle_trigger_failure q c)" by (rule evolves_trigger_failure)
  moreover have "evolves (handle_trigger_failure q c)
      (foldl (\<lambda>c' q. handle_trigger_failure q c') (handle_trigger_failure q c) qs)" by (rule Cons.IH)
  ultimately show ?case by (simp add: evolves_trans)
qed

lemma evolves_socketio_sleep: "evolves c (socketio_sleep sched y c)"
  unfolding socketio_sleep_def by (rule evolves_fold_failures)

lemma emitted_trigger_failure [simp]: "emitted (handle_trigger_failure q c) = emitted c"
  by (simp add: handle_trigger_failure_def split: option.split)

lemma emitted_socketio_sleep [simp]: "emitted (socketio_sleep sched y c) = emitted c"
proof -
  have "emitted (foldl (\<lambda>c' q. handle_trigger_failure q c') c qs) = emitted c" for qs
    by (induction qs arbitrary: c) simp_all
  then show ?thesis by (simp add: socketio_sleep_def)
qed

lemma phase1_yielding_step:
  "\<not> is_failed (processes c ! i) \<Longrightarrow>
   phase1_yielding sched env (i # rest) c acc =
     phase1_yielding sched env rest
       (socketio_sleep sched (After_tentative i)
          (emit_log (Tentative_checkpoint (custom_name (fst (take_tentative_checkpoint (env i) (processes c ! i))))
                       (checkpoint_id (snd (take_tentative_checkpoint (env i) (processes c ! i))))
                       (computation_step (state (fst (take_tentative_checkpoint (env i) (processes c ! i))))))
             ''info''
             (c\<lparr>processes := (processes c)[i := fst (take_tentative_checkpoint (env i) (processes c ! i))]\<rparr>)))
       (acc @ [(i, snd (take_tentative_checkpoint (env i) (processes c ! i)))])"
  by (simp add: Let_def split_beta)

lemma frozen_take_tentative [simp]:
  "frozen (fst (take_tentative_checkpoint tu p)) = frozen p"
  by (simp add: take_tentative_checkpoint_def frozen_def Let_def)

lemma take_tentative_frozen:
  "frozen p = frozen p' \<Longrightarrow> snd (take_tentative_checkpoint tu p) = snd (take_tentative_checkpoint tu p')"
  by (simp add: take_tentative_checkpoint_def frozen_def Let_def)

lemma evolves_phase1_yielding: "evolves c (fst (phase1_yielding sched env js c acc))"
proof (induction js arbitrary: c acc)
  case Nil
  show ?case by simp
next
  case (Cons i rest)
  show ?case
  proof (cases "is_failed (processes c ! i)")
    case True
    then show ?thesis using Cons.IH [of c acc] by simp
  next
    case False
    define c1 where "c1 = c\<lparr>processes := (processes c)[i := fst (take_tentative_checkpoint (env i) (processes c ! i))]\<rparr>"
    define c2 where "c2 = emit_log (Tentative_checkpoint (custom_name (fst (take_tentative_checkpoint (env i) (processes c ! i))))
                       (checkpoint_id (snd (take_tentative_checkpoint (env i) (processes c ! i))))
                       (computation_step (state (fst (take_tentative_checkpoint (env i) (processes c ! i))))))
             ''info'' c1"
    define c3 where "c3 = socketio_sleep sched (After_tentative i) c2"
    have st: "phase1_yielding sched env (i # rest) c acc =
        phase1_yielding sched env rest c3 (acc @ [(i, snd (take_tentative_checkpoint (env i) (processes c ! i)))])"
      unfolding c3_def c2_def c1_def by (rule phase1_yielding_step [OF False])
    have "evolves c c1"
      by (rule evolves_update [where i = i and p = "fst (take_tentative_checkpoint (env i) (processes c ! i))"])
        (simp_all add: c1_def)
    moreover have "evolves c1 c2" by (simp add: c2_def)
    moreover have "evolves c2 c3" unfolding c3_def by (rule evolves_socketio_sleep)
    moreover have "evolves c3 (fst (phase1_yielding sched env rest c3
        (acc @ [(i, snd (take_tentative_checkpoint (env i) (processes c ! i)))])))" by (rule Cons.IH)
    ultimately show ?thesis unfolding st by (blast intro: evolves_trans)
  qed
qed

lemma phase1_yielding_append:
  "phase1_yielding sched env (xs @ ys) c acc =
     phase1_yielding sched env ys (fst (phase1_yielding sched env xs c acc))
       (snd (phase1_yielding sched env xs c acc))"
proof (induction xs arbitrary: c acc)
  case Nil
  show ?case by simp
next
  case (Cons i rest)
  show ?case
  proof (cases "is_failed (processes c ! i)")
    case True
    then show ?thesis using Cons.IH [of c acc] by simp
  next
    case False
    show ?thesis
      using Cons.IH by (simp only: append_Cons phase1_yielding_step [OF False])
  qed
qed

lemma evolves_checkpoints_nth:
  "evolves c c' \<Longrightarrow> j < length (processes c) \<Longrightarrow>
     checkpoints (processes c' ! j) = checkpoints (processes c ! j)"
  using evolves_frozen [of c c' j] by (simp add: frozen_def)

lemma tentative_collected:
  "n \<le> length (processes c0) \<Longrightarrow>
   snd (phase1_yielding sched env [0..<n] c0 []) =
     map (\<lambda>i. (i, snd (take_tentative_checkpoint (env i) (processes c0 ! i))))
       (filter (\<lambda>i. \<not> is_failed (processes (fst (phase1_yielding sched env [0..<i] c0 [])) ! i)) [0..<n])"
proof (induction n)
  case 0
  show ?case by simp
next
  case (Suc n)
  define c' where "c' = fst (phase1_yielding sched env [0..<n] c0 [])"
  define acc' where "acc' = snd (phase1_yielding sched env [0..<n] c0 [])"
  from Suc.prems have n: "n < length (processes c0)" by simp
  have ih: "acc' = map (\<lambda>i. (i, snd (take_tentative_checkpoint (env i) (processes c0 ! i))))
       (filter (\<lambda>i. \<not> is_failed (processes (fst (phase1_yielding sched env [0..<i] c0 [])) ! i)) [0..<n])"
    unfolding acc'_def using Suc.IH n by simp
  have ev: "evolves c0 c'" unfolding c'_def by (rule evolves_phase1_yielding)
  have ck: "snd (take_tentative_checkpoint (env n) (processes c' ! n)) =
      snd (take_tentative_checkpoint (env n) (processes c0 ! n))"
    by (rule take_tentative_frozen) (rule evolves_frozen [OF ev n])
  have split: "phase1_yielding sched env [0..<Suc n] c0 [] = phase1_yielding sched env [n] c' acc'"
    unfolding c'_def acc'_def using phase1_yielding_append [of sched env "[0..<n]" "[n]" c0 "[]"]
    by simp
  show ?case
  proof (cases "is_failed (processes c' ! n)")
    case True
    then have "snd (phase1_yielding sched env [0..<Suc n] c0 []) = acc'"
      unfolding split by simp
    moreover from True have "is_failed (processes (fst (phase1_yielding sched env [0..<n] c0 [])) ! n)"
      by (simp add: c'_def)
    ultimately show ?thesis by (simp add: ih)
  next
    case False
    then have "snd (phase1_yielding sched env [0..<Suc n] c0 []) =
        acc' @ [(n, snd (take_tentative_checkpoint (env n) (processes c' ! n)))]"
      unfolding split by (simp add: Let_def split_beta)
    moreover from False have "\<not> is_failed (processes (fst (phase1_yielding sched env [0..<n] c0 [])) ! n)"
      by (simp add: c'_def)
    ultimately show ?thesis by (simp add: ih ck)
  qed
qed

lemma commit_all_yielding_histories:
  "distinct (map fst tc) \<Longrightarrow> \<forall>i\<in>set (map fst tc). i < length (processes c) \<Longrightarrow>
   length (processes (commit_all_yielding sched tc c)) = length (processes c) \<and>
   (\<forall>j<length (processes c). checkpoints (processes (commit_all_yielding sched tc c) ! j) =
      (case map_of tc j of None \<Rightarrow> checkpoints (processes c ! j)
       | Some ck \<Rightarrow> checkpoints (processes c ! j) @ [ck\<lparr>ck_type := ''permanent''\<rparr>]))"
proof (induction tc arbitrary: c)
  case Nil
  then show ?case by simp
next
  case (Cons a rest)
  obtain i ck where a: "a = (i, ck)" by (cases a)
  define c1 where "c1 = c\<lparr>processes := (processes c)[i := commit_checkpoint ck (processes c ! i)]\<rparr>"
  define c3 where "c3 = socketio_sleep sched (After_commit i)
      (emit_log (Checkpoint_committed (custom_name (commit_checkpoint ck (processes c ! i)))
         (checkpoint_id ck)) ''success'' c1)"
  have step: "commit_all_yielding sched (a # rest) c = commit_all_yielding sched rest c3"
    unfolding c3_def c1_def by (simp add: a Let_def)
  have ev: "evolves c1 c3"
    unfolding c3_def by (rule evolves_trans [OF evolves_emit_log evolves_socketio_sleep])
  have len1: "length (processes c1) = length (processes c)" by (simp add: c1_def)
  have len3: "length (processes c3) = length (processes c)"
    using evolves_length [OF ev] len1 by simp
  from Cons.prems a have d: "distinct (map fst rest)" "i \<notin> fst ` set rest" "i < length (processes c)"
    and r: "\<forall>k\<in>set (map fst rest). k < length (processes c3)" by (auto simp: len3)
  from d(2) have none: "map_of rest i = None" by (simp add: map_of_eq_None_iff)
  have h3: "checkpoints (processes c3 ! j) =
      (if j = i then checkpoints (processes c ! i) @ [ck\<lparr>ck_type := ''permanent''\<rparr>]
       else checkpoints (processes c ! j))" if "j < length (processes c)" for j
  proof -
    from that have "checkpoints (processes c3 ! j) = checkpoints (processes c1 ! j)"
      using evolves_checkpoints_nth [OF ev] len1 by simp
    also have "\<dots> = (if j = i then checkpoints (processes c ! i) @ [ck\<lparr>ck_type := ''permanent''\<rparr>]
       else checkpoints (processes c ! j))"
      using that d(3) by (simp add: c1_def nth_list_update commit_checkpoint_def Let_def)
    finally show ?thesis .
  qed
  from Cons.IH [OF d(1) r] have
    len: "length (processes (commit_all_yielding sched rest c3)) = length (processes c3)" and
    nth: "\<forall>j<length (processes c3). checkpoints (processes (commit_all_yielding sched rest c3) ! j) =
      (case map_of rest j of None \<Rightarrow> checkpoints (processes c3 ! j)
       | Some ck \<Rightarrow> checkpoints (processes c3 ! j) @ [ck\<lparr>ck_type := ''permanent''\<rparr>])" by blast+
  have 1: "length (processes (commit_all_yielding sched (a # rest) c)) = length (processes c)"
    unfolding step using len len3 by simp
  have 2: "\<forall>j<length (processes c). checkpoints (processes (commit_all_yielding sched (a # rest) c) ! j) =
      (case map_of (a # rest) j of None \<Rightarrow> checkpoints (processes c ! j)
       | Some ck \<Rightarrow> checkpoints (processes c ! j) @ [ck\<lparr>ck_type := ''permanent''\<rparr>])"
  proof (intro allI impI)
    fix j assume j: "j < length (processes c)"
    show "checkpoints (processes (commit_all_yielding sched (a # rest) c) ! j) =
      (case map_of (a # rest) j of None \<Rightarrow> checkpoints (processes c ! j)
       | Some ck \<Rightarrow> checkpoints (processes c ! j) @ [ck\<lparr>ck_type := ''permanent''\<rparr>])"
    proof (cases "j = i")
      case True
      with nth j none h3 [OF j] show ?thesis unfolding step by (simp add: len3 a)
    next
      case False
      with nth j h3 [OF j] show ?thesis unfolding step by (simp add: len3 a split: option.split)
    qed
  qed
  from 1 2 show ?case by blast
qed

lemma evolves_abort_all: "evolves c (abort_all tc c)"
proof (induction tc arbitrary: c)
  case Nil
  show ?case by simp
next
  case (Cons a rest)
  obtain i ck where a: "a = (i, ck)" by (cases a)
  define c1 where "c1 = c\<lparr>processes := (processes c)[i := abort_checkpoint (processes c ! i)]\<rparr>"
  have "evolves c c1"
    by (rule evolves_update [where i = i and p = "abort_checkpoint (processes c ! i)"])
      (simp_all add: c1_def frozen_def abort_checkpoint_def)
  moreover have "evolves c1 (abort_all rest c1)" by (rule Cons.IH)
  ultimately show ?case by (simp add: a c1_def evolves_trans)
qed

lemma checkpoints_reset_running [simp]: "checkpoints (reset_running p) = checkpoints p"
  by (simp add: reset_running_def)

lemma participant_alt:
  "participant sched env c i \<longleftrightarrow>
     \<not> is_failed (processes (fst (phase1_yielding sched env [0..<i] (phase1_start sched c) [])) ! i)"
  by (simp add: participant_def)

lemma evolves_phase1_start: "evolves c (phase1_start sched c)"
  unfolding phase1_start_def by (rule evolves_trans [OF evolves_emit_log evolves_socketio_sleep])

lemma length_phase1_start [simp]: "length (processes (phase1_start sched c)) = length (processes c)"
  by (rule evolves_length [OF evolves_phase1_start])

lemma evolves_at_decision: "evolves c (at_decision sched env c)"
  unfolding at_decision_def
  by (rule evolves_trans [OF evolves_phase1_start
        evolves_trans [OF evolves_phase1_yielding evolves_socketio_sleep]])

lemma length_at_decision [simp]: "length (processes (at_decision sched env c)) = length (processes c)"
  by (rule evolves_length [OF evolves_at_decision])

lemma tentative_of_closed:
  "tentative_of sched env c =
     map (\<lambda>i. (i, snd (take_tentative_checkpoint (env i) (processes c ! i))))
       (filter (participant sched env c) [0..<length (processes c)])"
proof -
  have "tentative_of sched env c =
     map (\<lambda>i. (i, snd (take_tentative_checkpoint (env i) (processes (phase1_start sched c) ! i))))
       (filter (participant sched env c) [0..<length (processes c)])"
    unfolding tentative_of_def
    using tentative_collected [of "length (processes c)" "phase1_start sched c" sched env]
    by (simp add: participant_alt [abs_def])
  also have "\<dots> = map (\<lambda>i. (i, snd (take_tentative_checkpoint (env i) (processes c ! i))))
       (filter (participant sched env c) [0..<length (processes c)])"
    by (rule map_cong [OF refl])
      (simp add: take_tentative_frozen [OF evolves_frozen [OF evolves_phase1_start]])
  finally show ?thesis .
qed

lemma initiate_checkpoint_yielding_unfold:
  "initiate_checkpoint_yielding sched env c =
     (let all_success = (length (tentative_of sched env c)
                           = length (filter (\<lambda>p. \<not> is_failed p) (processes (at_decision sched env c))));
          c3 = (if all_success
                then commit_all_yielding sched (tentative_of sched env c)
                       (socketio_sleep sched Before_commit
                          (emit_log Checkpoint_phase2_committing ''success'' (at_decision sched env c)))
                else abort_all (tentative_of sched env c)
                       (emit_log Checkpoint_aborted ''error'' (at_decision sched env c)));
          c4 = socketio_sleep sched Before_reset c3
      in (c4\<lparr>processes := map reset_running (processes c4)\<rparr>, all_success))"
proof -
  have "length (processes (socketio_sleep sched Before_phase1 (emit_log Checkpoint_phase1 ''checkpoint'' c)))
      = length (processes c)"
    using length_phase1_start [of sched c] by (simp add: phase1_start_def)
  then show ?thesis
    by (simp add: initiate_checkpoint_yielding_def tentative_of_def at_decision_def
        phase1_start_def Let_def split_beta)
qed

lemma run_histories:
  "length (processes (fst (initiate_checkpoint_yielding sched env c))) = length (processes c)"
  "i < length (processes c) \<Longrightarrow>
   checkpoints (processes (fst (initiate_checkpoint_yielding sched env c)) ! i) =
     (if snd (initiate_checkpoint_yielding sched env c) \<and> participant sched env c i
      then checkpoints (processes c ! i) @
             [(snd (take_tentative_checkpoint (env i) (processes c ! i)))\<lparr>ck_type := ''permanent''\<rparr>]
      else checkpoints (processes c ! i))"
proof -
  define tc where "tc = tentative_of sched env c"
  define c2 where "c2 = at_decision sched env c"
  define r where "r = (length tc = length (filter (\<lambda>p. \<not> is_failed p) (processes c2)))"
  define c3 where "c3 = (if r
                then commit_all_yielding sched tc
                       (socketio_sleep sched Before_commit
                          (emit_log Checkpoint_phase2_committing ''success'' c2))
                else abort_all tc (emit_log Checkpoint_aborted ''error'' c2))"
  define c4 where "c4 = socketio_sleep sched Before_reset c3"
  have run: "initiate_checkpoint_yielding sched env c = (c4\<lparr>processes := map reset_running (processes c4)\<rparr>, r)"
    unfolding initiate_checkpoint_yielding_unfold c4_def c3_def r_def c2_def tc_def
    by (simp add: Let_def)
  have len2: "length (processes c2) = length (processes c)" by (simp add: c2_def)
  have ev2: "evolves c c2" unfolding c2_def by (rule evolves_at_decision)
  define c2' where "c2' = socketio_sleep sched Before_commit
                          (emit_log Checkpoint_phase2_committing ''success'' c2)"
  have ev2': "evolves c2 c2'" unfolding c2'_def
    by (rule evolves_trans [OF evolves_emit_log evolves_socketio_sleep])
  have len2': "length (processes c2') = length (processes c)"
    using evolves_length [OF ev2'] len2 by simp
  have tcc: "tc = map (\<lambda>i. (i, snd (take_tentative_checkpoint (env i) (processes c ! i))))
       (filter (participant sched env c) [0..<length (processes c)])"
    unfolding tc_def by (rule tentative_of_closed)
  have dist: "distinct (map fst tc)" by (simp add: tcc comp_def)
  have rng: "\<forall>k\<in>set (map fst tc). k < length (processes c2')" by (auto simp: tcc len2')
  note cm = commit_all_yielding_histories [OF dist rng, of sched]
  have l3: "length (processes c3) = length (processes c)"
  proof (cases r)
    case True
    then show ?thesis using cm by (simp add: c3_def c2'_def [symmetric] len2')
  next
    case False
    have "evolves (emit_log Checkpoint_aborted ''error'' c2) c3"
      using False unfolding c3_def by (simp add: evolves_abort_all)
    from evolves_length [OF this] show ?thesis by (simp add: len2)
  qed
  have ev4: "evolves c3 c4" unfolding c4_def by (rule evolves_socketio_sleep)
  have l4: "length (processes c4) = length (processes c)"
    using evolves_length [OF ev4] l3 by simp
  show "length (processes (fst (initiate_checkpoint_yielding sched env c))) = length (processes c)"
    by (simp add: run l4)
  assume i: "i < length (processes c)"
  have mo: "map_of tc i = (if participant sched env c i
      then Some (snd (take_tentative_checkpoint (env i) (processes c ! i))) else None)"
    using i by (simp add: tcc map_of_tentative)
  have h2: "checkpoints (processes c2' ! i) = checkpoints (processes c ! i)"
    using evolves_checkpoints_nth [OF evolves_trans [OF ev2 ev2'] i] .
  have h3: "checkpoints (processes c3 ! i) =
     (if r \<and> participant sched env c i
      then checkpoints (processes c ! i) @
             [(snd (take_tentative_checkpoint (env i) (processes c ! i)))\<lparr>ck_type := ''permanent''\<rparr>]
      else checkpoints (processes c ! i))"
  proof (cases r)
    case True
    then have "checkpoints (processes c3 ! i) = checkpoints (processes (commit_all_yielding sched tc c2') ! i)"
      by (simp add: c3_def c2'_def)
    also have "\<dots> = (case map_of tc i of None \<Rightarrow> checkpoints (processes c2' ! i)
       | Some ck \<Rightarrow> checkpoints (processes c2' ! i) @ [ck\<lparr>ck_type := ''permanent''\<rparr>])"
      using cm i by (simp add: len2')
    finally show ?thesis using True by (simp add: mo h2)
  next
    case False
    have "evolves c2 c3"
      using False unfolding c3_def
      by (simp add: evolves_trans [OF evolves_emit_log evolves_abort_all])
    from evolves_checkpoints_nth [OF evolves_trans [OF ev2 this] i] False show ?thesis by simp
  qed
  have "checkpoints (processes c4 ! i) = checkpoints (processes c3 ! i)"
    using evolves_checkpoints_nth [OF ev4] i l3 by simp
  then show "checkpoints (processes (fst (initiate_checkpoint_yielding sched env c)) ! i) =
     (if snd (initiate_checkpoint_yielding sched env c) \<and> participant sched env c i
      then checkpoints (processes c ! i) @
             [(snd (take_tentative_checkpoint (env i) (processes c ! i)))\<lparr>ck_type := ''permanent''\<rparr>]
      else checkpoints (processes c ! i))"
    using i l4 by (simp add: run h3)
qed

lemma pid_take_tentative [simp]: "pid (fst (take_tentative_checkpoint tu p)) = pid p"
  by (simp add: take_tentative_checkpoint_def Let_def)

lemma ex_after_start:
  "processes (phase1_start fail_after_turn ex_two) = processes ex_two"
  by (simp add: phase1_start_def socketio_sleep_def fail_after_turn_def)

lemma ex_before_start:
  "processes (phase1_start fail_before_turn ex_two) =
     [Process 0 1 (Some ''A'') draws0, simulate_failure (Process 1 2 (Some ''B'') draws0)]"
  by (simp add: phase1_start_def socketio_sleep_def fail_before_turn_def handle_trigger_failure_def
      get_process_def ex_two_processes)

lemma ex_after_participants:
  "participant fail_after_turn ex_env ex_two 0"
  "participant fail_after_turn ex_env ex_two (Suc 0)"
  unfolding participant_alt
  by (simp_all add: ex_after_start ex_two_processes Let_def split_beta
      socketio_sleep_def fail_after_turn_def handle_trigger_failure_def get_process_def)

lemma ex_before_participants:
  "participant fail_before_turn ex_env ex_two 0"
  "\<not> participant fail_before_turn ex_env ex_two (Suc 0)"
  unfolding participant_alt
  by (simp_all add: ex_before_start Let_def split_beta
      socketio_sleep_def fail_before_turn_def handle_trigger_failure_def get_process_def)

lemma ex_after_tentative: "map fst (tentative_of fail_after_turn ex_env ex_two) = [0, 1]"
  by (simp add: tentative_of_closed ex_after_participants ex_two_processes comp_def
      upt_rec [of 0] upt_rec [of 1])

lemma ex_before_tentative: "map fst (tentative_of fail_before_turn ex_env ex_two) = [0]"
  by (simp add: tentative_of_closed ex_before_participants ex_two_processes comp_def
      upt_rec [of 0] upt_rec [of 1])

lemma ex_after_decision:
  "map is_failed (processes (at_decision fail_after_turn ex_env ex_two)) = [True, False]"
  by (simp add: at_decision_def ex_after_start ex_two_processes Let_def split_beta
      socketio_sleep_def fail_after_turn_def handle_trigger_failure_def get_process_def
      upt_rec [of 0] upt_rec [of 1] phase1_start_def)

lemma ex_before_decision:
  "map is_failed (processes (at_decision fail_before_turn ex_env ex_two)) = [False, True]"
  by (simp add: at_decision_def ex_two_processes Let_def split_beta
      socketio_sleep_def fail_before_turn_def handle_trigger_failure_def get_process_def
      upt_rec [of 0] upt_rec [of 1] phase1_start_def)

lemma length_filter_all: "length (filter Q xs) = length xs \<longleftrightarrow> (\<forall>x\<in>set xs. Q x)"
proof
  assume l: "length (filter Q xs) = length xs"
  show "\<forall>x\<in>set xs. Q x"
  proof (rule ccontr)
    assume "\<not> (\<forall>x\<in>set xs. Q x)"
    then obtain x where "x \<in> set xs" "\<not> Q x" by blast
    then have "length (filter Q xs) < length xs" by (rule length_filter_less)
    with l show False by simp
  qed
next
  assume "\<forall>x\<in>set xs. Q x"
  then show "length (filter Q xs) = length xs" by simp
qed

lemma failed_at_turn_stays:
  assumes i: "i < length (processes c)" and np: "\<not> participant sched env c i"
  shows "is_failed (processes (at_decision sched env c) ! i)"
proof -
  define c0 where "c0 = phase1_start sched c"
  define ci where "ci = fst (phase1_yielding sched env [0..<i] c0 [])"
  define n where "n = length (processes c)"
  from i have "[0..<n] = [0..<i] @ [i..<n]"
    unfolding n_def using upt_add_eq_append [of 0 i "length (processes c) - i"] by simp
  then have "phase1_yielding sched env [0..<n] c0 [] =
      phase1_yielding sched env [i..<n] ci (snd (phase1_yielding sched env [0..<i] c0 []))"
    unfolding ci_def by (simp only: phase1_yielding_append)
  then have "evolves ci (fst (phase1_yielding sched env [0..<n] c0 []))"
    by (simp add: evolves_phase1_yielding)
  then have ev: "evolves ci (at_decision sched env c)"
    unfolding at_decision_def c0_def n_def
    by (rule evolves_trans [OF _ evolves_socketio_sleep])
  from np have "is_failed (processes ci ! i)"
    by (simp add: participant_alt ci_def c0_def)
  then show ?thesis by (rule evolves_is_failed [OF ev])
qed

lemma run_result:
  "snd (initiate_checkpoint_yielding sched env c) =
     (length (tentative_of sched env c) =
        length (filter (\<lambda>p. \<not> is_failed p) (processes (at_decision sched env c))))"
  by (simp add: initiate_checkpoint_yielding_unfold Let_def)

lemma run_result_no_later_failure:
  "snd (initiate_checkpoint_yielding sched env c) =
     (\<forall>i\<in>set (map fst (tentative_of sched env c)).
        \<not> is_failed (processes (at_decision sched env c) ! i))"
proof -
  define n where "n = length (processes c)"
  define P where "P = filter (participant sched env c) [0..<n]"
  define Q where "Q = (\<lambda>i. \<not> is_failed (processes (at_decision sched env c) ! i))"
  have tc: "map fst (tentative_of sched env c) = P"
    by (simp add: tentative_of_closed P_def n_def comp_def)
  then have lt: "length (tentative_of sched env c) = length P"
    by (metis length_map)
  have "length (filter (\<lambda>p. \<not> is_failed p) (processes (at_decision sched env c))) =
      length (filter Q [0..<length (processes (at_decision sched env c))])"
    unfolding Q_def
    by (rule length_filter_nth_upt [where P = "\<lambda>p. \<not> is_failed p", symmetric])
  also have "\<dots> = length (filter Q [0..<n])" by (simp add: n_def)
  also have "filter Q [0..<n] = filter Q P"
  proof -
    have "filter Q P = filter (\<lambda>i. participant sched env c i \<and> Q i) [0..<n]"
      by (simp add: P_def)
    also have "\<dots> = filter Q [0..<n]"
    proof (rule filter_cong [OF refl])
      fix i assume "i \<in> set [0..<n]"
      then have "i < length (processes c)" by (simp add: n_def)
      then show "(participant sched env c i \<and> Q i) = Q i"
        using failed_at_turn_stays [of i c sched env] by (auto simp: Q_def)
    qed
    finally show ?thesis by simp
  qed
  finally have ln: "length (filter (\<lambda>p. \<not> is_failed p) (processes (at_decision sched env c))) =
      length (filter Q P)" .
  have "snd (initiate_checkpoint_yielding sched env c) = (length (filter Q P) = length P)"
    by (simp add: run_result lt ln eq_commute)
  also have "\<dots> = (\<forall>i\<in>set P. Q i)" by (rule length_filter_all)
  finally show ?thesis by (simp add: tc Q_def)
qed

lemma emitted_phase1_start:
  "emitted (phase1_start sched c) = emitted c @ [(Checkpoint_phase1, ''checkpoint'')]"
  by (simp add: phase1_start_def emit_log_def)

lemma emitted_phase1_yielding:
  "\<exists>es. emitted (fst (phase1_yielding sched env js c acc)) = emitted c @ es \<and>
        (\<forall>e\<in>set es. \<exists>n i s. e = (Tentative_checkpoint n i s, ''info''))"
proof (induction js arbitrary: c acc)
  case Nil
  show ?case by simp
next
  case (Cons i rest)
  show ?case
  proof (cases "is_failed (processes c ! i)")
    case True
    then show ?thesis using Cons.IH [of c acc] by simp
  next
    case False
    define m where "m = (Tentative_checkpoint (custom_name (fst (take_tentative_checkpoint (env i) (processes c ! i))))
                       (checkpoint_id (snd (take_tentative_checkpoint (env i) (processes c ! i))))
                       (computation_step (state (fst (take_tentative_checkpoint (env i) (processes c ! i))))), ''info'')"
    define c3 where "c3 = socketio_sleep sched (After_tentative i)
          (emit_log (fst m) ''info''
             (c\<lparr>processes := (processes c)[i := fst (take_tentative_checkpoint (env i) (processes c ! i))]\<rparr>))"
    have st: "phase1_yielding sched env (i # rest) c acc =
        phase1_yielding sched env rest c3 (acc @ [(i, snd (take_tentative_checkpoint (env i) (processes c ! i)))])"
      unfolding c3_def m_def fst_conv by (rule phase1_yielding_step [OF False])
    have e3: "emitted c3 = emitted c @ [m]" by (simp add: c3_def emit_log_def m_def)
    from Cons.IH [of c3 "acc @ [(i, snd (take_tentative_checkpoint (env i) (processes c ! i)))]"]
    obtain es where es: "emitted (fst (phase1_yielding sched env rest c3
          (acc @ [(i, snd (take_tentative_checkpoint (env i) (processes c ! i)))]))) = emitted c3 @ es"
      and k: "\<forall>e\<in>set es. \<exists>n i s. e = (Tentative_checkpoint n i s, ''info'')" by blast
    have "emitted (fst (phase1_yielding sched env (i # rest) c acc)) = emitted c @ (m # es)"
      unfolding st es e3 by simp
    moreover have "\<forall>e\<in>set (m # es). \<exists>n i s. e = (Tentative_checkpoint n i s, ''info'')"
      using k by (auto simp: m_def)
    ultimately show ?thesis by blast
  qed
qed

lemma emitted_commit_all_yielding:
  "\<exists>es. emitted (commit_all_yielding sched tc c) = emitted c @ es \<and> length es = length tc \<and>
        (\<forall>e\<in>set es. \<exists>n i. e = (Checkpoint_committed n i, ''success''))"
proof (induction tc arbitrary: c)
  case Nil
  show ?case by simp
next
  case (Cons a rest)
  obtain i ck where a: "a = (i, ck)" by (cases a)
  define m where "m = (Checkpoint_committed (custom_name (commit_checkpoint ck (processes c ! i)))
         (checkpoint_id ck), ''success'')"
  define c3 where "c3 = socketio_sleep sched (After_commit i)
      (emit_log (fst m) ''success''
         (c\<lparr>processes := (processes c)[i := commit_checkpoint ck (processes c ! i)]\<rparr>))"
  have step: "commit_all_yielding sched (a # rest) c = commit_all_yielding sched rest c3"
    unfolding c3_def m_def fst_conv by (simp add: a Let_def)
  have e3: "emitted c3 = emitted c @ [m]" by (simp add: c3_def emit_log_def m_def)
  from Cons.IH [of c3] obtain es where
    es: "emitted (commit_all_yielding sched rest c3) = emitted c3 @ es"
    and l: "length es = length rest"
    and k: "\<forall>e\<in>set es. \<exists>n i. e = (Checkpoint_committed n i, ''success'')" by blast
  have "emitted (commit_all_yielding sched (a # rest) c) = emitted c @ (m # es)"
    unfolding step es e3 by simp
  moreover have "length (m # es) = length (a # rest)" using l by simp
  moreover have "\<forall>e\<in>set (m # es). \<exists>n i. e = (Checkpoint_committed n i, ''success'')"
    using k by (auto simp: m_def)
  ultimately show ?case by blast
qed

lemma emitted_abort_all [simp]: "emitted (abort_all tc c) = emitted c"
  by (induction tc arbitrary: c) auto

lemma run_log:
  "\<exists>es1 es3. new_log c (fst (initiate_checkpoint_yielding sched env c)) =
       (Checkpoint_phase1, ''checkpoint'') # es1 @
       (if snd (initiate_checkpoint_yielding sched env c)
        then (Checkpoint_phase2_committing, ''success'') # es3
        else [(Checkpoint_aborted, ''error'')]) \<and>
     (\<forall>e\<in>set es1. \<exists>n i s. e = (Tentative_checkpoint n i s, ''info'')) \<and>
     (\<forall>e\<in>set es3. \<exists>n i. e = (Checkpoint_committed n i, ''success'')) \<and>
     length es3 = length (tentative_of sched env c)"
proof -
  define tc where "tc = tentative_of sched env c"
  define c2 where "c2 = at_decision sched env c"
  define r where "r = snd (initiate_checkpoint_yielding sched env c)"
  from emitted_phase1_yielding [of sched env "[0..<length (processes c)]" "phase1_start sched c" "[]"]
  obtain es1 where e2: "emitted c2 = emitted c @ (Checkpoint_phase1, ''checkpoint'') # es1"
    and k1: "\<forall>e\<in>set es1. \<exists>n i s. e = (Tentative_checkpoint n i s, ''info'')"
    unfolding c2_def at_decision_def by (auto simp: emitted_phase1_start)
  from emitted_commit_all_yielding [of sched tc "socketio_sleep sched Before_commit
                          (emit_log Checkpoint_phase2_committing ''success'' c2)"]
  obtain es3 where e3: "emitted (commit_all_yielding sched tc (socketio_sleep sched Before_commit
         (emit_log Checkpoint_phase2_committing ''success'' c2))) =
       emitted c2 @ (Checkpoint_phase2_committing, ''success'') # es3"
    and l3: "length es3 = length tc"
    and k3: "\<forall>e\<in>set es3. \<exists>n i. e = (Checkpoint_committed n i, ''success'')"
    by (auto simp: emit_log_def)
  have rr: "r = (length tc = length (filter (\<lambda>p. \<not> is_failed p) (processes c2)))"
    unfolding r_def tc_def c2_def by (rule run_result)
  have "emitted (fst (initiate_checkpoint_yielding sched env c)) =
      emitted c @ (Checkpoint_phase1, ''checkpoint'') # es1 @
       (if r then (Checkpoint_phase2_committing, ''success'') # es3
        else [(Checkpoint_aborted, ''error'')])"
    unfolding initiate_checkpoint_yielding_unfold
    using e3 e2 rr by (simp add: Let_def tc_def c2_def emit_log_def)
  then have "new_log c (fst (initiate_checkpoint_yielding sched env c)) =
       (Checkpoint_phase1, ''checkpoint'') # es1 @
       (if r then (Checkpoint_phase2_committing, ''success'') # es3
        else [(Checkpoint_aborted, ''error'')])"
    by (simp add: new_log_def)
  with k1 k3 l3 show ?thesis unfolding r_def tc_def by blast
qed

lemma count_not_failed:
  "length (filter (\<lambda>p. \<not> is_failed p) ps) = length (filter Not (map is_failed ps))"
  by (simp add: filter_map comp_def)

lemma ex_after_result: "\<not> snd (initiate_checkpoint_yielding fail_after_turn ex_env ex_two)"
proof -
  have "length (tentative_of fail_after_turn ex_env ex_two) = 2"
    using arg_cong [OF ex_after_tentative, of length] by simp
  then show ?thesis
    by (simp add: run_result count_not_failed ex_after_decision)
qed

lemma ex_before_result: "snd (initiate_checkpoint_yielding fail_before_turn ex_env ex_two)"
proof -
  have "length (tentative_of fail_before_turn ex_env ex_two) = 1"
    using arg_cong [OF ex_before_tentative, of length] by simp
  then show ?thesis
    by (simp add: run_result count_not_failed ex_before_decision)
qed

lemma no_commit_among_tentative:
  "\<forall>e\<in>set es. \<exists>n i s. e = (Tentative_checkpoint n i s, ''info'') \<Longrightarrow>
     filter (\<lambda>e. is_commit (fst e)) es = []"
  by (induction es) auto

lemma all_commit_among_committed:
  "\<forall>e\<in>set es. \<exists>n i. e = (Checkpoint_committed n i, ''success'') \<Longrightarrow>
     filter (\<lambda>e. is_commit (fst e)) es = es"
  by (induction es) auto

section \<open>The claims\<close>

text \<open>
  Claim C1.  Whatever failures arrive while it sleeps, one run of
  \<^verbatim>\<open>initiate_checkpoint\<close> keeps the collection's length and either returns true and has
  appended exactly one checkpoint (the process's own tentative one, made permanent) to
  the history of every participant, that is every process that was not failed when its
  turn in phase 1 came, and has left every other history alone (commit), or returns false
  and has changed no history (abort).
\<close>

theorem checkpoint_run_all_or_nothing:
  "length (processes (fst (initiate_checkpoint_yielding sched env c))) = length (processes c) \<and>
   ((snd (initiate_checkpoint_yielding sched env c) \<and>
     (\<forall>i<length (processes c).
        checkpoints (processes (fst (initiate_checkpoint_yielding sched env c)) ! i) =
          (if participant sched env c i
           then checkpoints (processes c ! i) @
                  [(snd (take_tentative_checkpoint (env i) (processes c ! i)))\<lparr>ck_type := ''permanent''\<rparr>]
           else checkpoints (processes c ! i))))
    \<or> (\<not> snd (initiate_checkpoint_yielding sched env c) \<and>
        (\<forall>i<length (processes c).
           checkpoints (processes (fst (initiate_checkpoint_yielding sched env c)) ! i) =
             checkpoints (processes c ! i))))"
  by (cases "snd (initiate_checkpoint_yielding sched env c)") (simp_all add: run_histories)

text \<open>
  C1 at \<open>ex_two\<close>, both ways: with \<open>fail_before_turn\<close> the run commits, process 0 gains
  one checkpoint and process 1, failed before its turn, none; with \<open>fail_after_turn\<close>
  both processes took a tentative checkpoint, the run aborts and no history grows.
\<close>

theorem checkpoint_run_all_or_nothing_witness:
  "length (processes ex_two) = 2 \<and>
   checkpoints (processes ex_two ! 0) = [] \<and> checkpoints (processes ex_two ! 1) = [] \<and>
   snd (initiate_checkpoint_yielding fail_before_turn ex_env ex_two) \<and>
   participant fail_before_turn ex_env ex_two 0 \<and>
   \<not> participant fail_before_turn ex_env ex_two 1 \<and>
   length (checkpoints (processes (fst (initiate_checkpoint_yielding fail_before_turn ex_env ex_two)) ! 0)) = 1 \<and>
   checkpoints (processes (fst (initiate_checkpoint_yielding fail_before_turn ex_env ex_two)) ! 1) = [] \<and>
   \<not> snd (initiate_checkpoint_yielding fail_after_turn ex_env ex_two) \<and>
   participant fail_after_turn ex_env ex_two 0 \<and>
   participant fail_after_turn ex_env ex_two 1 \<and>
   checkpoints (processes (fst (initiate_checkpoint_yielding fail_after_turn ex_env ex_two)) ! 0) = [] \<and>
   checkpoints (processes (fst (initiate_checkpoint_yielding fail_after_turn ex_env ex_two)) ! 1) = []"
  using checkpoint_run_all_or_nothing [of fail_before_turn ex_env ex_two]
    checkpoint_run_all_or_nothing [of fail_after_turn ex_env ex_two]
  by (simp add: ex_before_result ex_after_result ex_before_participants ex_after_participants
      ex_two_processes All_less_Suc)

text \<open>
  Claim C4.  For a process with a non-empty history, \<^verbatim>\<open>restore_from_checkpoint\<close> makes
  \<open>state\<close>, \<open>sent_counter\<close> and \<open>rcvd_counter\<close> equal to the snapshot in the last history
  entry and leaves the history as it is; restoring again, directly or after a computation
  step, gives the same state.
\<close>

theorem restore_from_checkpoint_last:
  "checkpoints p \<noteq> [] \<Longrightarrow>
     state (fst (restore_from_checkpoint p)) = ck_state (last (checkpoints p)) \<and>
     sent_counter (fst (restore_from_checkpoint p)) = ck_sent_counter (last (checkpoints p)) \<and>
     rcvd_counter (fst (restore_from_checkpoint p)) = ck_rcvd_counter (last (checkpoints p)) \<and>
     checkpoints (fst (restore_from_checkpoint p)) = checkpoints p \<and>
     restore_from_checkpoint (fst (restore_from_checkpoint p)) = restore_from_checkpoint p \<and>
     state (fst (restore_from_checkpoint (simulate_computation k d (fst (restore_from_checkpoint p)))))
       = ck_state (last (checkpoints p))"
  by (simp add: restore_from_checkpoint_def simulate_computation_def Let_def)

text \<open>The hypothesis of C4 at \<open>ex_process\<close>, whose state has moved on since its checkpoint.\<close>

theorem restore_from_checkpoint_last_witness:
  "checkpoints ex_process \<noteq> [] \<and>
   temperature (state ex_process) = 85 / 4 \<and>
   computation_step (state ex_process) = 1 \<and>
   state (fst (restore_from_checkpoint ex_process)) =
     \<lparr> temperature = 21, pressure = 1011, wind_speed = 21 / 2, humidity = 63, computation_step = 0 \<rparr> \<and>
   length (checkpoints (fst (restore_from_checkpoint ex_process))) = 1"
proof -
  have ne: "checkpoints ex_process \<noteq> []" by (simp add: ex_process_checkpoints)
  from restore_from_checkpoint_last [OF ne, of 1 "ex_draws 0"] ne show ?thesis
    by (simp add: ex_process_checkpoints ex_process_state)
qed

text \<open>
  Claim C5.  After \<^verbatim>\<open>simulate_failure\<close>, any sequence of \<^verbatim>\<open>simulate_computation\<close> calls,
  each with its own intensity and draws, leaves the process as it is: the state dictionary
  (the four variables and \<open>computation_step\<close>) and all message counters are those before
  the failure.
\<close>

theorem failure_freezes_state:
  "foldl (\<lambda>q (k, d). simulate_computation k d q) (simulate_failure p) runs = simulate_failure p \<and>
   state (foldl (\<lambda>q (k, d). simulate_computation k d q) (simulate_failure p) runs) = state p \<and>
   messages_sent (foldl (\<lambda>q (k, d). simulate_computation k d q) (simulate_failure p) runs) = messages_sent p \<and>
   messages_received (foldl (\<lambda>q (k, d). simulate_computation k d q) (simulate_failure p) runs) = messages_received p \<and>
   sent_counter (foldl (\<lambda>q (k, d). simulate_computation k d q) (simulate_failure p) runs) = sent_counter p \<and>
   rcvd_counter (foldl (\<lambda>q (k, d). simulate_computation k d q) (simulate_failure p) runs) = rcvd_counter p"
proof -
  have "foldl (\<lambda>q (k, d). simulate_computation k d q) (simulate_failure p) runs = simulate_failure p"
    by (induction runs) (simp_all add: simulate_computation_def simulate_failure_def split_beta)
  then show ?thesis by (simp add: simulate_failure_def)
qed

text \<open>
  Claim C6 says that \<^verbatim>\<open>initiate_checkpoint\<close> returns true exactly when the number of
  tentative checkpoints equals the number of processes that were not failed when the run
  started.  At \<open>ex_two\<close> two processes are not failed at the start.  Under
  \<open>fail_after_turn\<close> two tentative checkpoints are collected and the run returns false;
  under \<open>fail_before_turn\<close> one is collected and the run returns true.
\<close>

theorem checkpoint_decision_counterexample:
  "length (filter (\<lambda>p. \<not> is_failed p) (processes ex_two)) = 2 \<and>
   length (tentative_of fail_after_turn ex_env ex_two) = 2 \<and>
   \<not> snd (initiate_checkpoint_yielding fail_after_turn ex_env ex_two) \<and>
   length (tentative_of fail_before_turn ex_env ex_two) = 1 \<and>
   snd (initiate_checkpoint_yielding fail_before_turn ex_env ex_two)"
proof -
  have "length (tentative_of fail_after_turn ex_env ex_two) = 2"
    using arg_cong [OF ex_after_tentative, of length] by simp
  moreover have "length (tentative_of fail_before_turn ex_env ex_two) = 1"
    using arg_cong [OF ex_before_tentative, of length] by simp
  ultimately show ?thesis
    by (simp add: ex_after_result ex_before_result ex_two_processes)
qed

text \<open>
  Claim C6, amended.  \<^verbatim>\<open>initiate_checkpoint\<close> returns true exactly when the number of
  tentative checkpoints collected in phase 1 equals the number of processes that are not
  failed when line 148 is reached, after phase 1; with failures as the only interference
  that is exactly when no process that took a tentative checkpoint has failed since.  The
  collected checkpoints are those of the participants.  The commit branch is taken
  exactly when the result is true (its banner is logged, and one commit per collected
  pair), the abort branch exactly when it is false.
\<close>

theorem checkpoint_decision_at_recount:
  "snd (initiate_checkpoint_yielding sched env c) =
     (length (tentative_of sched env c) =
        length (filter (\<lambda>p. \<not> is_failed p) (processes (at_decision sched env c)))) \<and>
   snd (initiate_checkpoint_yielding sched env c) =
     (\<forall>i\<in>set (map fst (tentative_of sched env c)).
        \<not> is_failed (processes (at_decision sched env c) ! i)) \<and>
   map fst (tentative_of sched env c) = filter (participant sched env c) [0..<length (processes c)] \<and>
   ((Checkpoint_phase2_committing, ''success'')
      \<in> set (new_log c (fst (initiate_checkpoint_yielding sched env c)))) =
     snd (initiate_checkpoint_yielding sched env c) \<and>
   ((Checkpoint_aborted, ''error'')
      \<in> set (new_log c (fst (initiate_checkpoint_yielding sched env c)))) =
     (\<not> snd (initiate_checkpoint_yielding sched env c)) \<and>
   length (filter (\<lambda>e. is_commit (fst e)) (new_log c (fst (initiate_checkpoint_yielding sched env c)))) =
     (if snd (initiate_checkpoint_yielding sched env c) then length (tentative_of sched env c) else 0)"
proof -
  from run_log [of c sched env] obtain es1 es3 where
    nl: "new_log c (fst (initiate_checkpoint_yielding sched env c)) =
       (Checkpoint_phase1, ''checkpoint'') # es1 @
       (if snd (initiate_checkpoint_yielding sched env c)
        then (Checkpoint_phase2_committing, ''success'') # es3
        else [(Checkpoint_aborted, ''error'')])"
    and k1: "\<forall>e\<in>set es1. \<exists>n i s. e = (Tentative_checkpoint n i s, ''info'')"
    and k3: "\<forall>e\<in>set es3. \<exists>n i. e = (Checkpoint_committed n i, ''success'')"
    and l3: "length es3 = length (tentative_of sched env c)" by blast
  have a: "((Checkpoint_phase2_committing, ''success'')
      \<in> set (new_log c (fst (initiate_checkpoint_yielding sched env c)))) =
     snd (initiate_checkpoint_yielding sched env c)"
    unfolding nl using k1 k3 by auto
  have b: "((Checkpoint_aborted, ''error'')
      \<in> set (new_log c (fst (initiate_checkpoint_yielding sched env c)))) =
     (\<not> snd (initiate_checkpoint_yielding sched env c))"
    unfolding nl using k1 k3 by auto
  have d: "length (filter (\<lambda>e. is_commit (fst e)) (new_log c (fst (initiate_checkpoint_yielding sched env c)))) =
     (if snd (initiate_checkpoint_yielding sched env c) then length (tentative_of sched env c) else 0)"
    unfolding nl
    by (simp add: no_commit_among_tentative [OF k1] all_commit_among_committed [OF k3] l3)
  have e: "map fst (tentative_of sched env c) = filter (participant sched env c) [0..<length (processes c)]"
    by (simp add: tentative_of_closed comp_def)
  from run_result [of sched env c] run_result_no_later_failure [of sched env c] e a b d
  show ?thesis by blast
qed

text \<open>The amended C6 at \<open>ex_two\<close> under both schedules.\<close>

theorem checkpoint_decision_at_recount_witness:
  "map fst (tentative_of fail_after_turn ex_env ex_two) = [0, 1] \<and>
   is_failed (processes (at_decision fail_after_turn ex_env ex_two) ! 0) \<and>
   \<not> snd (initiate_checkpoint_yielding fail_after_turn ex_env ex_two) \<and>
   (Checkpoint_aborted, ''error'')
     \<in> set (new_log ex_two (fst (initiate_checkpoint_yielding fail_after_turn ex_env ex_two))) \<and>
   map fst (tentative_of fail_before_turn ex_env ex_two) = [0] \<and>
   \<not> is_failed (processes (at_decision fail_before_turn ex_env ex_two) ! 0) \<and>
   snd (initiate_checkpoint_yielding fail_before_turn ex_env ex_two) \<and>
   (Checkpoint_phase2_committing, ''success'')
     \<in> set (new_log ex_two (fst (initiate_checkpoint_yielding fail_before_turn ex_env ex_two))) \<and>
   length (filter (\<lambda>e. is_commit (fst e))
     (new_log ex_two (fst (initiate_checkpoint_yielding fail_before_turn ex_env ex_two)))) = 1"
proof -
  have f0: "is_failed (processes (at_decision fail_after_turn ex_env ex_two) ! 0)"
    using arg_cong [OF ex_after_decision, of "\<lambda>xs. xs ! 0"] by (simp add: ex_two_processes)
  have g0: "\<not> is_failed (processes (at_decision fail_before_turn ex_env ex_two) ! 0)"
    using arg_cong [OF ex_before_decision, of "\<lambda>xs. xs ! 0"] by (simp add: ex_two_processes)
  have l: "length (tentative_of fail_before_turn ex_env ex_two) = 1"
    using arg_cong [OF ex_before_tentative, of length] by simp
  from checkpoint_decision_at_recount [of fail_after_turn ex_env ex_two]
    checkpoint_decision_at_recount [of fail_before_turn ex_env ex_two]
  show ?thesis
    by (simp add: ex_after_result ex_before_result ex_after_tentative ex_before_tentative f0 g0 l)
qed

text \<open>
  Claim C9.  In the sequential embedding the decision of \<^verbatim>\<open>initiate_checkpoint\<close> always
  finds as many tentative checkpoints as non-failed processes, so the run is the commit
  branch followed by the final reset, and the result is \<open>True\<close>.
\<close>

theorem abort_branch_unreachable:
  "(case phase1 env [0..<length (processes c)] (emit_log Checkpoint_phase1 ''checkpoint'' c) [] of
      (c2, tentative_checkpoints) \<Rightarrow>
        length tentative_checkpoints = length (filter (\<lambda>p. \<not> is_failed p) (processes c2)) \<and>
        initiate_checkpoint env c =
          (let c3 = commit_all tentative_checkpoints
                      (emit_log Checkpoint_phase2_committing ''success'' c2)
           in (c3\<lparr>processes := map reset_running (processes c3)\<rparr>, True)))"
proof -
  define c1 where "c1 = emit_log Checkpoint_phase1 ''checkpoint'' c"
  obtain c2 tc where ph: "phase1 env [0..<length (processes c)] c1 [] = (c2, tc)"
    by (cases "phase1 env [0..<length (processes c)] c1 []")
  have ps1: "processes c1 = processes c" by (simp add: c1_def)
  have cnt: "length tc = length (filter (\<lambda>p. \<not> is_failed p) (processes c2))"
    using phase1_count [of env c1 c2 tc] ph by (simp add: ps1)
  from initiate_checkpoint_unfold [OF ph [unfolded c1_def]] cnt ph show ?thesis
    by (simp add: c1_def Let_def)
qed

text \<open>
  Claim C2 says that \<^verbatim>\<open>initiate_recovery\<close> on an existing process that is not failed
  changes nothing.  At \<open>ex_stepped\<close> process 0 exists, is not failed and has moved one
  step past its checkpoint; the recovery sets its state back to the checkpoint.
\<close>

theorem recovery_of_running_process_counterexample:
  "get_process ex_stepped 0 = Some 0 \<and>
   \<not> is_failed (processes ex_stepped ! 0) \<and>
   state (processes ex_stepped ! 0) =
     \<lparr> temperature = 85 / 4, pressure = 1010, wind_speed = 53 / 5, humidity = 63,
       computation_step = 1 \<rparr> \<and>
   state (processes (initiate_recovery 0 ex_stepped) ! 0) =
     \<lparr> temperature = 21, pressure = 1011, wind_speed = 21 / 2, humidity = 63,
       computation_step = 0 \<rparr> \<and>
   state (processes (initiate_recovery 0 ex_stepped) ! 0) \<noteq> state (processes ex_stepped ! 0)"
  by (simp add: get_process_ex_stepped initiate_recovery_processes ex_stepped_processes
      is_failed_ex_process ex_process_state rolled_back_fields ex_process_checkpoints)

text \<open>
  Claim C2, amended.  For a pid naming an existing process that is not failed,
  \<^verbatim>\<open>initiate_recovery\<close> leaves every history unchanged; a process with an empty history
  keeps its state, counters and failure flag; a process with a non-empty history gets
  the state and counters of its last checkpoint and is no longer failed; and every
  process that is not failed afterwards has status \<open>running\<close>.
\<close>

theorem recovery_of_running_process_amended:
  "get_process c failed_pid = Some k \<Longrightarrow> \<not> is_failed (processes c ! k) \<Longrightarrow>
     length (processes (initiate_recovery failed_pid c)) = length (processes c) \<and>
     (\<forall>i<length (processes c).
        checkpoints (processes (initiate_recovery failed_pid c) ! i) = checkpoints (processes c ! i) \<and>
        (\<not> is_failed (processes (initiate_recovery failed_pid c) ! i) \<longrightarrow>
           status (processes (initiate_recovery failed_pid c) ! i) = ''running'') \<and>
        (if checkpoints (processes c ! i) = []
         then state (processes (initiate_recovery failed_pid c) ! i) = state (processes c ! i) \<and>
              sent_counter (processes (initiate_recovery failed_pid c) ! i) = sent_counter (processes c ! i) \<and>
              rcvd_counter (processes (initiate_recovery failed_pid c) ! i) = rcvd_counter (processes c ! i) \<and>
              is_failed (processes (initiate_recovery failed_pid c) ! i) = is_failed (processes c ! i)
         else state (processes (initiate_recovery failed_pid c) ! i) = ck_state (last (checkpoints (processes c ! i))) \<and>
              sent_counter (processes (initiate_recovery failed_pid c) ! i) = ck_sent_counter (last (checkpoints (processes c ! i))) \<and>
              rcvd_counter (processes (initiate_recovery failed_pid c) ! i) = ck_rcvd_counter (last (checkpoints (processes c ! i))) \<and>
              \<not> is_failed (processes (initiate_recovery failed_pid c) ! i)))"
proof -
  assume g: "get_process c failed_pid = Some k" and nf: "\<not> is_failed (processes c ! k)"
  have "(processes c ! k)\<lparr>is_failed := False\<rparr> = processes c ! k" using nf by simp
  then have "(processes c)[k := (processes c ! k)\<lparr>is_failed := False\<rparr>] = processes c"
    by (simp add: list_update_id)
  then have ps: "processes (initiate_recovery failed_pid c) = map rolled_back (processes c)"
    by (simp add: initiate_recovery_processes g)
  show ?thesis
    unfolding ps by (simp add: rolled_back_fields)
qed

text \<open>The amended C2 at \<open>ex_stepped\<close>.\<close>

theorem recovery_of_running_process_amended_witness:
  "get_process ex_stepped 0 = Some 0 \<and>
   \<not> is_failed (processes ex_stepped ! 0) \<and>
   length (processes ex_stepped) = 2 \<and>
   checkpoints (processes ex_stepped ! 0) \<noteq> [] \<and>
   \<not> is_failed (processes (initiate_recovery 0 ex_stepped) ! 0) \<and>
   status (processes (initiate_recovery 0 ex_stepped) ! 0) = ''running'' \<and>
   computation_step (state (processes (initiate_recovery 0 ex_stepped) ! 0)) = 0"
proof -
  have g: "get_process ex_stepped 0 = Some 0" by (rule get_process_ex_stepped)
  have nf: "\<not> is_failed (processes ex_stepped ! 0)"
    by (simp add: ex_stepped_processes is_failed_ex_process)
  have l: "length (processes ex_stepped) = 2" by (simp add: ex_stepped_processes)
  have ne: "checkpoints (processes ex_stepped ! 0) \<noteq> []"
    by (simp add: ex_stepped_processes ex_process_checkpoints)
  note th = recovery_of_running_process_amended [OF g nf, THEN conjunct2, rule_format, of 0]
  from th l ne have
    "\<not> is_failed (processes (initiate_recovery 0 ex_stepped) ! 0)"
    "status (processes (initiate_recovery 0 ex_stepped) ! 0) = ''running''"
    "state (processes (initiate_recovery 0 ex_stepped) ! 0) =
       ck_state (last (checkpoints (processes ex_stepped ! 0)))"
    by simp_all
  with g nf l ne show ?thesis
    by (simp add: ex_stepped_processes ex_process_checkpoints)
qed

text \<open>
  Claim C3 (failed implies status \<open>failed\<close>, after every operation).  The last loop of
  \<^verbatim>\<open>initiate_recovery\<close> sets every status to \<open>running\<close> without the test on \<open>is_failed\<close>
  that the last loop of \<^verbatim>\<open>initiate_checkpoint\<close> has.  At \<open>ex_both_failed\<close> the
  invariant holds; after recovering process 0, process 1 (no checkpoint to restore) is
  still failed and its status is \<open>running\<close>.
\<close>

theorem recovery_leaves_failed_process_running:
  "is_failed (processes ex_both_failed ! 0) \<and> status (processes ex_both_failed ! 0) = ''failed'' \<and>
   is_failed (processes ex_both_failed ! 1) \<and> status (processes ex_both_failed ! 1) = ''failed'' \<and>
   get_process ex_both_failed 0 = Some 0 \<and>
   is_failed (processes (initiate_recovery 0 ex_both_failed) ! 1) \<and>
   status (processes (initiate_recovery 0 ex_both_failed) ! 1) = ''running''"
  by (simp add: initiate_recovery_processes get_process_def ex_both_failed_processes
      rolled_back_def restore_from_checkpoint_def)

text \<open>
  Claim C10.  \<^verbatim>\<open>initiate_recovery\<close> on an existing pid keeps every history and clears
  \<open>is_failed\<close> of every process whose history is non-empty, whichever process was named.
\<close>

theorem recovery_clears_all_with_history:
  "get_process c failed_pid = Some k \<Longrightarrow>
     length (processes (initiate_recovery failed_pid c)) = length (processes c) \<and>
     (\<forall>i<length (processes c).
        checkpoints (processes (initiate_recovery failed_pid c) ! i) = checkpoints (processes c ! i) \<and>
        (checkpoints (processes c ! i) \<noteq> [] \<longrightarrow>
           \<not> is_failed (processes (initiate_recovery failed_pid c) ! i)))"
proof -
  assume g: "get_process c failed_pid = Some k"
  have ps: "processes (initiate_recovery failed_pid c) =
      map rolled_back ((processes c)[k := (processes c ! k)\<lparr>is_failed := False\<rparr>])"
    by (simp add: initiate_recovery_processes g)
  from get_process_Some [OF g] have k: "k < length (processes c)" by simp
  show ?thesis
    unfolding ps using k by (auto simp: rolled_back_fields nth_list_update)
qed

text \<open>C10 at \<open>ex_stepped_failed\<close>: recovering process 0 also revives process 1.\<close>

theorem recovery_clears_all_with_history_witness:
  "get_process ex_stepped_failed 0 = Some 0 \<and>
   length (processes ex_stepped_failed) = 2 \<and>
   is_failed (processes ex_stepped_failed ! 1) \<and>
   checkpoints (processes ex_stepped_failed ! 1) \<noteq> [] \<and>
   \<not> is_failed (processes (initiate_recovery 0 ex_stepped_failed) ! 1) \<and>
   \<not> is_failed (processes (initiate_recovery 0 ex_stepped_failed) ! 0)"
proof -
  have g: "get_process ex_stepped_failed 0 = Some 0"
    by (simp add: get_process_def ex_stepped_failed_processes pid_ex_process)
  have c0: "checkpoints (processes ex_stepped_failed ! 0) \<noteq> []"
    by (simp add: ex_stepped_failed_processes ex_process_checkpoints)
  have c1: "checkpoints (processes ex_stepped_failed ! 1) \<noteq> []"
    by (simp add: ex_stepped_failed_processes checkpoints_checkpointed)
  have f1: "is_failed (processes ex_stepped_failed ! 1)"
    by (simp add: ex_stepped_failed_processes)
  have l: "length (processes ex_stepped_failed) = 2"
    by (simp add: ex_stepped_failed_processes)
  note th = recovery_clears_all_with_history [OF g, THEN conjunct2, rule_format]
  have r1: "\<not> is_failed (processes (initiate_recovery 0 ex_stepped_failed) ! 1)"
    using th [of 1] c1 l by simp
  have r0: "\<not> is_failed (processes (initiate_recovery 0 ex_stepped_failed) ! 0)"
    using th [of 0] c0 l by simp
  from g l f1 c1 r1 r0 show ?thesis by blast
qed

text \<open>
  Claim C7.  From a non-negative step counter, \<^verbatim>\<open>step_computation\<close> adds one to the
  counter, advances every process, and then runs the checkpoint protocol on the advanced
  processes exactly when auto mode is on and the configured frequency divides the new
  counter (one more phase 1 banner in the log, none otherwise); it raises exactly when
  auto mode is on and the frequency is 0.  With auto mode on, frequency 5 and the counter
  at 0, any number \<open>n\<close> of steps returns normally and has started \<open>n div 5\<close> protocol
  runs: one at step 5, one at step 10, none at the steps between.
\<close>

theorem step_computation_auto_checkpoint:
  "(0 \<le> step_count c \<longrightarrow>
      step_count (outcome (step_computation draws env c)) = step_count c + 1 \<and>
      processes (outcome (step_computation draws env c)) =
        (if auto_mode c \<and> checkpoint_frequency c dvd step_count c + 1
         then map (\<lambda>(i, p). checkpointed (env i) p) (enumerate 0 (advanced draws c))
         else advanced draws c) \<and>
      protocol_runs (outcome (step_computation draws env c)) =
        protocol_runs c + (if auto_mode c \<and> checkpoint_frequency c dvd step_count c + 1 then 1 else 0) \<and>
      ((\<exists>e c'. step_computation draws env c = Inl (e, c')) = (auto_mode c \<and> checkpoint_frequency c = 0))) \<and>
   (auto_mode c \<and> checkpoint_frequency c = 5 \<and> step_count c = 0 \<longrightarrow>
      (\<exists>c'. run_steps steps c = Inr c' \<and> step_count c' = int (length steps) \<and>
            protocol_runs c' = protocol_runs c + length steps div 5))"
proof (intro conjI impI)
  assume "auto_mode c \<and> checkpoint_frequency c = 5 \<and> step_count c = 0"
  then have h: "auto_mode c" "checkpoint_frequency c = 5" "step_count c = 0" by simp_all
  from h(3) have "0 \<le> step_count c" by simp
  from run_steps_count [OF h(1,2) this, of steps] obtain c' where
    r: "run_steps steps c = Inr c'" and s: "step_count c' = step_count c + int (length steps)"
    and p: "int (protocol_runs c') =
          int (protocol_runs c) + (step_count c + int (length steps)) div 5 - step_count c div 5"
    by blast
  from p h(3) have "int (protocol_runs c') = int (protocol_runs c + length steps div 5)"
    by (simp add: zdiv_int)
  then have "protocol_runs c' = protocol_runs c + length steps div 5" by (simp only: int_int_eq)
  with r s h(3) show "\<exists>c'. run_steps steps c = Inr c' \<and> step_count c' = int (length steps) \<and>
            protocol_runs c' = protocol_runs c + length steps div 5" by simp
qed (simp_all add: step_computation_single)

text \<open>C7 at \<open>ex_auto\<close>: no run after 1 and 4 steps, one after 5 and 9, two after 10.\<close>

theorem step_computation_auto_checkpoint_witness:
  "0 \<le> step_count ex_auto \<and> auto_mode ex_auto \<and> checkpoint_frequency ex_auto = 5 \<and>
   step_count ex_auto = 0 \<and>
   protocol_runs (outcome (step_computation ex_draws ex_env ex_auto)) = 0 \<and>
   (\<exists>c'. run_steps (replicate 4 (ex_draws, ex_env)) ex_auto = Inr c' \<and> protocol_runs c' = 0) \<and>
   (\<exists>c'. run_steps (replicate 5 (ex_draws, ex_env)) ex_auto = Inr c' \<and> protocol_runs c' = 1) \<and>
   (\<exists>c'. run_steps (replicate 9 (ex_draws, ex_env)) ex_auto = Inr c' \<and> protocol_runs c' = 1) \<and>
   (\<exists>c'. run_steps (replicate 10 (ex_draws, ex_env)) ex_auto = Inr c' \<and> protocol_runs c' = 2)"
  using step_computation_auto_checkpoint [of ex_auto ex_draws ex_env "replicate 4 (ex_draws, ex_env)"]
    step_computation_auto_checkpoint [of ex_auto ex_draws ex_env "replicate 5 (ex_draws, ex_env)"]
    step_computation_auto_checkpoint [of ex_auto ex_draws ex_env "replicate 9 (ex_draws, ex_env)"]
    step_computation_auto_checkpoint [of ex_auto ex_draws ex_env "replicate 10 (ex_draws, ex_env)"]
  by (auto simp: ex_auto_fields)

text \<open>
  Claim C8.  After any sequence of \<^verbatim>\<open>add_process\<close> and \<^verbatim>\<open>remove_process\<close> calls on a fresh
  controller, the pids in the collection are pairwise distinct, the pids returned by
  \<^verbatim>\<open>add_process\<close> are strictly increasing in call order (each greater than all returned
  before, so none is reused), and every pid in the collection is one of them.
\<close>

theorem pids_unique_and_increasing:
  "distinct (map pid (processes (fst (run_commands cmds SimulationController)))) \<and>
   sorted_wrt (<) (snd (run_commands cmds SimulationController)) \<and>
   pid ` set (processes (fst (run_commands cmds SimulationController)))
     \<subseteq> set (snd (run_commands cmds SimulationController))"
proof -
  obtain c' rets where r: "run_commands cmds SimulationController = (c', rets)"
    by (cases "run_commands cmds SimulationController")
  have "\<forall>p\<in>set (processes SimulationController). pid p < next_pid SimulationController"
    and "distinct (map pid (processes SimulationController))"
    by (simp_all add: SimulationController_def)
  from run_commands_pids [OF this r]
  have "distinct (map pid (processes c')) \<and> sorted_wrt (<) rets \<and>
      pid ` set (processes c') \<subseteq> set rets"
    by (simp add: SimulationController_def)
  then show ?thesis by (simp add: r)
qed

text \<open>C8 at \<open>ex_commands\<close>: pids 0, 1, 2 are returned and 1, 2 remain.\<close>

theorem pids_unique_and_increasing_witness:
  "snd (run_commands ex_commands SimulationController) = [0, 1, 2] \<and>
   map pid (processes (fst (run_commands ex_commands SimulationController))) = [1, 2] \<and>
   distinct (map pid (processes (fst (run_commands ex_commands SimulationController)))) \<and>
   sorted_wrt (<) (snd (run_commands ex_commands SimulationController))"
  using pids_unique_and_increasing [of ex_commands] by (simp add: ex_commands_run)

end
